theory Spec2Isabelle
  imports Complex_Main "HOL-Library.AList" "HOL-Library.Multiset"
begin

section \<open>Data model (types.ts)\<close>

text \<open>
  A \<open>DAGNode\<close> is an object with an identifier, the identifiers it depends on, the level
  written by Kahn's algorithm and optional user data. The field \<open>id\<close> of the source is
  \<open>id_of\<close> here, since \<open>id\<close> is the identity function of HOL.
\<close>

record 'd DAGNode =
  id_of :: string
  dependencies :: "string list"
  level :: "nat option"
  data :: "'d option"

text \<open>
  A JavaScript \<open>Map\<close> iterates in insertion order and holds every key once: it is an
  association list whose keys are distinct. The map holds references to the node
  objects; an object is addressed by the key it is stored under, so a list of node
  objects taken from the map (a level) is the list of their keys, read through the map.
\<close>

type_synonym 'd node_map = "(string \<times> 'd DAGNode) list"

record 'd DependencyDAG =
  nodes :: "'d node_map"
  levels :: "string list list"
  roots :: "string list"
  leaves :: "string list"

datatype dag_error = Error string

definition has :: "('k \<times> 'v) list \<Rightarrow> 'k \<Rightarrow> bool" where
  "has m k \<longleftrightarrow> map_of m k \<noteq> None"

text \<open>\<open>Set.add\<close>: a JavaScript \<open>Set\<close> keeps insertion order and ignores a repeated element.\<close>

definition set_add :: "'a \<Rightarrow> 'a list \<Rightarrow> 'a list" where
  "set_add x s = (if x \<in> set s then s else s @ [x])"

text \<open>\<open>Array.prototype.join\<close> on strings.\<close>

fun join :: "string \<Rightarrow> string list \<Rightarrow> string" where
  "join sep [] = []"
| "join sep [x] = x"
| "join sep (x # y # ys) = x @ sep @ join sep (y # ys)"

section \<open>Kahn's algorithm with levels (traversal.ts)\<close>

definition depsInDag :: "'d node_map \<Rightarrow> 'd DAGNode \<Rightarrow> string list" where
  "depsInDag m node = filter (\<lambda>dep. has m dep) (dependencies node)"

text \<open>First loop: the in-degree of every name, and an empty dependents set for it.\<close>

definition init_inDegree :: "'d node_map \<Rightarrow> (string \<times> int) list" where
  "init_inDegree m =
     fold (\<lambda>(name, node) inDegree.
             AList.update name (int (length (depsInDag m node))) inDegree) m []"

definition init_dependents :: "'d node_map \<Rightarrow> (string \<rightharpoonup> string list)" where
  "init_dependents m = fold (\<lambda>(name, node) dependents. dependents(name \<mapsto> [])) m Map.empty"

text \<open>Second loop: \<open>if (dependents.has(dep)) dependents.get(dep).add(name)\<close>.\<close>

definition add_dependent :: "string \<Rightarrow> string \<Rightarrow> (string \<rightharpoonup> string list) \<Rightarrow> (string \<rightharpoonup> string list)" where
  "add_dependent name dep dependents =
     (case dependents dep of
        None \<Rightarrow> dependents
      | Some s \<Rightarrow> dependents(dep \<mapsto> set_add name s))"

definition build_dependents :: "'d node_map \<Rightarrow> (string \<rightharpoonup> string list)" where
  "build_dependents m =
     fold (\<lambda>(name, node) dependents. fold (add_dependent name) (dependencies node) dependents)
       m (init_dependents m)"

definition init_queue :: "(string \<times> int) list \<Rightarrow> string list" where
  "init_queue inDegree = map fst (filter (\<lambda>(name, degree). degree = 0) inDegree)"

text \<open>
  The variables of the \<open>while\<close> loop. \<open>st_nodes\<close> is the map itself, whose objects the
  loop mutates (\<open>node.level = currentLevel\<close>); \<open>levelNodes\<close> and \<open>st_levels\<close> hold
  references to these objects, that is, their keys.
\<close>

record 'd kahn_state =
  st_nodes :: "'d node_map"
  st_inDegree :: "(string \<times> int) list"
  st_queue :: "string list"
  st_levels :: "string list list"
  st_nodeLevel :: "string \<rightharpoonup> nat"
  st_processedCount :: nat
  levelNodes :: "string list"
  nextQueue :: "string list"

text \<open>
  The body of \<open>for (const dependent of dependents.get(name) ?? [])\<close>. Every member of a
  dependents set is a key of the map and has an in-degree, so the non-null assertion of
  \<open>inDegree.get(dependent)!\<close> holds; the model leaves the state as it is otherwise.
  The variable \<open>dependent\<close> is \<open>dependent'\<close> here.
\<close>

definition decrement :: "string \<Rightarrow> 'd kahn_state \<Rightarrow> 'd kahn_state" where
  "decrement dependent' st =
     (case map_of (st_inDegree st) dependent' of
        None \<Rightarrow> st
      | Some degree \<Rightarrow>
          (let newDegree = degree - 1;
               st' = st\<lparr>st_inDegree := AList.update dependent' newDegree (st_inDegree st)\<rparr>
           in if newDegree = 0 then st'\<lparr>nextQueue := nextQueue st' @ [dependent']\<rparr> else st'))"

text \<open>The body of \<open>for (const name of queue)\<close>.\<close>

definition process_node :: "(string \<rightharpoonup> string list) \<Rightarrow> nat \<Rightarrow> string \<Rightarrow> 'd kahn_state \<Rightarrow> 'd kahn_state" where
  "process_node dependents currentLevel name st =
     fold decrement (case dependents name of None \<Rightarrow> [] | Some s \<Rightarrow> s)
       (st\<lparr>st_nodes := AList.map_entry name (\<lambda>node. node\<lparr>level := Some currentLevel\<rparr>) (st_nodes st),
           st_nodeLevel := (st_nodeLevel st)(name \<mapsto> currentLevel),
           levelNodes := levelNodes st @ [name],
           st_processedCount := st_processedCount st + 1\<rparr>)"

text \<open>The body of \<open>while (queue.length > 0)\<close>.\<close>

definition process_level :: "(string \<rightharpoonup> string list) \<Rightarrow> 'd kahn_state \<Rightarrow> 'd kahn_state" where
  "process_level dependents st =
     (let currentLevel = length (st_levels st);
          st' = fold (process_node dependents currentLevel) (st_queue st)
                  (st\<lparr>levelNodes := [], nextQueue := []\<rparr>)
      in st'\<lparr>st_levels := st_levels st' @ [levelNodes st'], st_queue := nextQueue st'\<rparr>)"

definition count_pos :: "(string \<times> int) list \<Rightarrow> nat" where
  "count_pos al = length (filter (\<lambda>(k, v). 0 < v) al)"

lemma count_pos_update:
  "map_of al k = Some d \<Longrightarrow>
     count_pos (AList.update k (d - 1) al) + (if d - 1 = 0 then 1 else 0) \<le> count_pos al"
  by (induction al) (auto simp: count_pos_def)

lemma decrement_measure:
  "count_pos (st_inDegree (decrement d st)) + length (nextQueue (decrement d st))
     \<le> count_pos (st_inDegree st) + length (nextQueue st)"
proof (cases "map_of (st_inDegree st) d")
  case None
  then show ?thesis by (simp add: decrement_def)
next
  case (Some v)
  from count_pos_update [OF Some] show ?thesis
    using Some by (auto simp: decrement_def Let_def split: if_splits)
qed

lemma fold_decrement_measure:
  "count_pos (st_inDegree (fold decrement ds st)) + length (nextQueue (fold decrement ds st))
     \<le> count_pos (st_inDegree st) + length (nextQueue st)"
proof (induction ds arbitrary: st)
  case Nil
  show ?case by simp
next
  case (Cons d ds)
  have "count_pos (st_inDegree (fold decrement ds (decrement d st)))
          + length (nextQueue (fold decrement ds (decrement d st)))
        \<le> count_pos (st_inDegree (decrement d st)) + length (nextQueue (decrement d st))"
    by (rule Cons.IH)
  also have "\<dots> \<le> count_pos (st_inDegree st) + length (nextQueue st)"
    by (rule decrement_measure)
  finally show ?case by simp
qed

lemma process_node_measure:
  "count_pos (st_inDegree (process_node D l n st)) + length (nextQueue (process_node D l n st))
     \<le> count_pos (st_inDegree st) + length (nextQueue st)"
  unfolding process_node_def
  by (rule order_trans [OF fold_decrement_measure]) simp

lemma fold_process_node_measure:
  "count_pos (st_inDegree (fold (process_node D l) q st))
      + length (nextQueue (fold (process_node D l) q st))
     \<le> count_pos (st_inDegree st) + length (nextQueue st)"
proof (induction q arbitrary: st)
  case Nil
  show ?case by simp
next
  case (Cons n q)
  show ?case
    using Cons.IH [of "process_node D l n st"] process_node_measure [of D l n st]
    by simp
qed

lemma process_level_measure:
  "count_pos (st_inDegree (process_level D st)) + length (st_queue (process_level D st))
     \<le> count_pos (st_inDegree st)"
  using fold_process_node_measure [of D "length (st_levels st)" "st_queue st"
          "st\<lparr>levelNodes := [], nextQueue := []\<rparr>"]
  by (simp add: process_level_def Let_def)

function kahn_loop :: "(string \<rightharpoonup> string list) \<Rightarrow> 'd kahn_state \<Rightarrow> 'd kahn_state" where
  "kahn_loop dependents st =
     (if st_queue st = [] then st else kahn_loop dependents (process_level dependents st))"
  by pat_completeness auto
termination
proof (relation "measure (\<lambda>(D, st). count_pos (st_inDegree st) + length (st_queue st))")
  show "wf (measure (\<lambda>(D, st). count_pos (st_inDegree st) + length (st_queue st)))"
    by simp
next
  fix dependents :: "string \<rightharpoonup> string list" and st :: "'d kahn_state"
  assume "st_queue st \<noteq> []"
  then have "0 < length (st_queue st)" by simp
  moreover note process_level_measure [of dependents st]
  ultimately have "count_pos (st_inDegree (process_level dependents st))
                     + length (st_queue (process_level dependents st))
                   < count_pos (st_inDegree st) + length (st_queue st)"
    by linarith
  then show "((dependents, process_level dependents st), (dependents, st))
          \<in> measure (\<lambda>(D, st). count_pos (st_inDegree st) + length (st_queue st))"
    by simp
qed

declare kahn_loop.simps [simp del]

definition buildLeveledDAG :: "'d node_map \<Rightarrow> dag_error + 'd DependencyDAG" where
  "buildLeveledDAG m =
     (let inDegree = init_inDegree m;
          dependents = build_dependents m;
          st = kahn_loop dependents
                 \<lparr>st_nodes = m, st_inDegree = inDegree, st_queue = init_queue inDegree,
                  st_levels = [], st_nodeLevel = Map.empty, st_processedCount = 0,
                  levelNodes = [], nextQueue = []\<rparr>
      in if st_processedCount st \<noteq> length m
         then Inl (Error (''Circular dependency detected involving: ''
                      @ join '', '' (filter (\<lambda>n. st_nodeLevel st n = None) (map fst m))))
         else Inr \<lparr>nodes = st_nodes st,
                   levels = st_levels st,
                   roots = filter (\<lambda>name. case dependents name of
                                              None \<Rightarrow> True | Some deps \<Rightarrow> deps = [])
                             (map fst m),
                   leaves = filter (\<lambda>name. case map_of (st_nodes st) name of
                                               None \<Rightarrow> False
                                             | Some node \<Rightarrow> depsInDag (st_nodes st) node = [])
                             (map fst m)\<rparr>)"

text \<open>\<open>dag.levels.flat()\<close>: the node objects of all levels, read through the map.\<close>

definition getTopologicalOrder :: "'d DependencyDAG \<Rightarrow> 'd DAGNode list" where
  "getTopologicalOrder dag = List.map_filter (map_of (nodes dag)) (concat (levels dag))"

subsection \<open>What one level of the loop does to each variable\<close>

lemma decrement_fields [simp]:
  "st_nodes (decrement d st) = st_nodes st"
  "st_queue (decrement d st) = st_queue st"
  "st_levels (decrement d st) = st_levels st"
  "st_nodeLevel (decrement d st) = st_nodeLevel st"
  "st_processedCount (decrement d st) = st_processedCount st"
  "levelNodes (decrement d st) = levelNodes st"
  by (simp_all add: decrement_def Let_def split: option.splits)

lemma fold_decrement_fields [simp]:
  "st_nodes (fold decrement ds st) = st_nodes st"
  "st_queue (fold decrement ds st) = st_queue st"
  "st_levels (fold decrement ds st) = st_levels st"
  "st_nodeLevel (fold decrement ds st) = st_nodeLevel st"
  "st_processedCount (fold decrement ds st) = st_processedCount st"
  "levelNodes (fold decrement ds st) = levelNodes st"
  by (induction ds arbitrary: st; simp)+

lemma decrement_inDegree:
  "map_of (st_inDegree (decrement d st)) =
     (\<lambda>n. if n = d then map_option (\<lambda>v. v - 1) (map_of (st_inDegree st) n)
          else map_of (st_inDegree st) n)"
  by (auto simp: decrement_def Let_def update_conv' fun_eq_iff split: option.splits)

lemma decrement_nextQueue:
  "nextQueue (decrement d st) =
     nextQueue st @ (if map_of (st_inDegree st) d = Some 1 then [d] else [])"
  by (auto simp: decrement_def Let_def split: option.splits)

lemma fold_decrement_closed:
  "distinct ds \<Longrightarrow>
     map_of (st_inDegree (fold decrement ds st)) =
       (\<lambda>n. if n \<in> set ds then map_option (\<lambda>v. v - 1) (map_of (st_inDegree st) n)
            else map_of (st_inDegree st) n)
   \<and> nextQueue (fold decrement ds st) =
       nextQueue st @ filter (\<lambda>d. map_of (st_inDegree st) d = Some 1) ds"
proof (induction ds arbitrary: st)
  case Nil
  show ?case by simp
next
  case (Cons d ds)
  then have d: "d \<notin> set ds" and dist: "distinct ds" by simp_all
  have same: "\<And>x. x \<in> set ds \<Longrightarrow>
      map_of (st_inDegree (decrement d st)) x = map_of (st_inDegree st) x"
    using d by (auto simp: decrement_inDegree)
  have filt: "filter (\<lambda>x. map_of (st_inDegree (decrement d st)) x = Some 1) ds
              = filter (\<lambda>x. map_of (st_inDegree st) x = Some 1) ds"
    by (rule filter_cong) (simp_all add: same)
  from Cons.IH [OF dist, of "decrement d st"]
  have A: "map_of (st_inDegree (fold decrement ds (decrement d st))) =
       (\<lambda>n. if n \<in> set ds then map_option (\<lambda>v. v - 1) (map_of (st_inDegree (decrement d st)) n)
            else map_of (st_inDegree (decrement d st)) n)"
    and B: "nextQueue (fold decrement ds (decrement d st)) =
       nextQueue (decrement d st) @ filter (\<lambda>x. map_of (st_inDegree (decrement d st)) x = Some 1) ds"
    by simp_all
  have "map_of (st_inDegree (fold decrement (d # ds) st)) n =
       (if n \<in> set (d # ds) then map_option (\<lambda>v. v - 1) (map_of (st_inDegree st) n)
            else map_of (st_inDegree st) n)" for n
    using d by (auto simp: A decrement_inDegree)
  moreover have "nextQueue (fold decrement (d # ds) st) =
       nextQueue st @ filter (\<lambda>d. map_of (st_inDegree st) d = Some 1) (d # ds)"
    by (simp add: B filt decrement_nextQueue)
  ultimately show ?case by (simp add: fun_eq_iff)
qed

lemma process_node_fields [simp]:
  "st_queue (process_node D l n st) = st_queue st"
  "st_levels (process_node D l n st) = st_levels st"
  "st_nodeLevel (process_node D l n st) = (st_nodeLevel st)(n \<mapsto> l)"
  "st_processedCount (process_node D l n st) = st_processedCount st + 1"
  "levelNodes (process_node D l n st) = levelNodes st @ [n]"
  "st_nodes (process_node D l n st) =
     AList.map_entry n (\<lambda>node. node\<lparr>level := Some l\<rparr>) (st_nodes st)"
  by (simp_all add: process_node_def)

lemma fold_process_node_fields:
  "st_queue (fold (process_node D l) q st) = st_queue st"
  "st_levels (fold (process_node D l) q st) = st_levels st"
  "st_processedCount (fold (process_node D l) q st) = st_processedCount st + length q"
  "levelNodes (fold (process_node D l) q st) = levelNodes st @ q"
  by (induction q arbitrary: st; simp)+

lemma fold_process_node_nodeLevel:
  "st_nodeLevel (fold (process_node D l) q st) =
     (\<lambda>n. if n \<in> set q then Some l else st_nodeLevel st n)"
  by (induction q arbitrary: st) (auto simp: fun_eq_iff)

lemma fold_process_node_store:
  "map fst (st_nodes (fold (process_node D l) q st)) = map fst (st_nodes st)
   \<and> map_of (st_nodes (fold (process_node D l) q st)) =
       (\<lambda>n. if n \<in> set q then map_option (\<lambda>node. node\<lparr>level := Some l\<rparr>) (map_of (st_nodes st) n)
            else map_of (st_nodes st) n)"
proof (induction q arbitrary: st)
  case Nil
  show ?case by simp
next
  case (Cons x q)
  have keys: "map fst (AList.map_entry x f al) = map fst al" for f :: "'b \<Rightarrow> 'b" and al :: "(string \<times> 'b) list"
    by (induction al) auto
  show ?case
    using Cons.IH [of "process_node D l x st"]
    by (auto simp: keys map_of_map_entry fun_eq_iff split: option.splits)
qed

subsection \<open>The dependency relation of a map\<close>

definition deps_of :: "'d node_map \<Rightarrow> string \<Rightarrow> string list" where
  "deps_of m n = (case map_of m n of None \<Rightarrow> [] | Some node \<Rightarrow> dependencies node)"

definition in_deps :: "'d node_map \<Rightarrow> string \<Rightarrow> string set" where
  "in_deps m n = {d \<in> set (deps_of m n). has m d}"

definition initDeg :: "'d node_map \<Rightarrow> string \<Rightarrow> int" where
  "initDeg m n = int (length (filter (has m) (deps_of m n)))"

lemma has_iff: "has m k \<longleftrightarrow> k \<in> fst ` set m"
  by (simp add: has_def map_of_eq_None_iff)

lemma finite_in_deps [simp]: "finite (in_deps m n)"
  by (simp add: in_deps_def)

lemma card_in_deps_le: "int (card (in_deps m n)) \<le> initDeg m n"
proof -
  have "in_deps m n = set (filter (has m) (deps_of m n))"
    by (auto simp: in_deps_def)
  then have "card (in_deps m n) \<le> length (filter (has m) (deps_of m n))"
    by (simp only: card_length)
  then show ?thesis
    by (simp add: initDeg_def)
qed

subsection \<open>The two loops before the queue\<close>

lemma update_fresh: "k \<notin> fst ` set al \<Longrightarrow> AList.update k v al = al @ [(k, v)]"
  by (induction al) auto

lemma fold_update_fresh:
  "distinct (map fst acc @ map fst es) \<Longrightarrow>
     fold (\<lambda>(name, node) inDegree. AList.update name (g node) inDegree) es acc
       = acc @ map (\<lambda>(name, node). (name, g node)) es"
proof (induction es arbitrary: acc)
  case Nil
  show ?case by simp
next
  case (Cons e es)
  obtain name node where e: "e = (name, node)" by (cases e)
  from Cons.prems have fresh: "name \<notin> fst ` set acc" and
    dist: "distinct (map fst (acc @ [(name, g node)]) @ map fst es)"
    by (auto simp: e)
  show ?case
    using Cons.IH [OF dist] by (simp add: e update_fresh [OF fresh])
qed

lemma init_inDegree_eq:
  "distinct (map fst m) \<Longrightarrow>
     init_inDegree m = map (\<lambda>(name, node). (name, int (length (depsInDag m node)))) m"
  unfolding init_inDegree_def
  using fold_update_fresh [of "[]" m "\<lambda>node. int (length (depsInDag m node))"] by simp

lemma keys_init_inDegree: "distinct (map fst m) \<Longrightarrow> map fst (init_inDegree m) = map fst m"
  by (simp add: init_inDegree_eq case_prod_unfold comp_def)

lemma map_of_init_inDegree:
  assumes "distinct (map fst m)"
  shows "map_of (init_inDegree m) n = (if has m n then Some (initDeg m n) else None)"
proof -
  have "map_of (map (\<lambda>(name, node). (name, g node)) m) n = map_option g (map_of m n)"
    for g :: "'a DAGNode \<Rightarrow> int"
    by (induction m) auto
  then have "map_of (init_inDegree m) n
               = map_option (\<lambda>node. int (length (depsInDag m node))) (map_of m n)"
    by (simp add: init_inDegree_eq [OF assms])
  then show ?thesis
    by (cases "map_of m n") (simp_all add: has_def [of m n] initDeg_def deps_of_def depsInDag_def)
qed

lemma init_queue_distinct_keys:
  assumes "distinct (map fst al)"
  shows "set (init_queue al) = {n. map_of al n = Some 0}" and "distinct (init_queue al)"
proof -
  show "set (init_queue al) = {n. map_of al n = Some 0}"
  proof (intro set_eqI iffI)
    fix n assume "n \<in> set (init_queue al)"
    then have "(n, 0) \<in> set al" by (auto simp: init_queue_def)
    then show "n \<in> {n. map_of al n = Some 0}" using assms by simp
  next
    fix n assume "n \<in> {n. map_of al n = Some 0}"
    then have "(n, 0) \<in> set al" by (auto dest: map_of_SomeD)
    then show "n \<in> set (init_queue al)" by (force simp: init_queue_def)
  qed
  show "distinct (init_queue al)"
    unfolding init_queue_def using assms by (simp add: distinct_map_filter)
qed

lemma init_queue_set:
  assumes "distinct (map fst m)"
  shows "set (init_queue (init_inDegree m)) = {n \<in> fst ` set m. initDeg m n = 0}"
    and "distinct (init_queue (init_inDegree m))"
proof -
  have d: "distinct (map fst (init_inDegree m))"
    using assms by (simp add: keys_init_inDegree)
  show "set (init_queue (init_inDegree m)) = {n \<in> fst ` set m. initDeg m n = 0}"
    by (auto simp: init_queue_distinct_keys(1) [OF d] map_of_init_inDegree [OF assms] has_iff
             split: if_splits)
  show "distinct (init_queue (init_inDegree m))"
    by (rule init_queue_distinct_keys(2) [OF d])
qed

subsection \<open>The dependents sets\<close>

lemma init_dependents_eq:
  "init_dependents m = (\<lambda>k. if k \<in> fst ` set m then Some [] else None)"
proof -
  have "fold (\<lambda>(name, node) dependents. dependents(name \<mapsto> [])) es D0
          = (\<lambda>k. if k \<in> fst ` set es then Some [] else D0 k)"
    for es :: "'a node_map" and D0 :: "string \<rightharpoonup> string list"
    by (induction es arbitrary: D0) (auto simp: fun_eq_iff)
  then show ?thesis by (simp add: init_dependents_def)
qed

lemma set_add_idem [simp]: "set_add x (set_add x s) = set_add x s"
  by (simp add: set_add_def)

lemma set_set_add [simp]: "set (set_add x s) = insert x (set s)"
  by (auto simp: set_add_def)

lemma distinct_set_add [simp]: "distinct (set_add x s) = distinct s"
  by (auto simp: set_add_def)

lemma add_dependent_eq:
  "add_dependent name dep D = (\<lambda>n. if n = dep then map_option (set_add name) (D n) else D n)"
  by (auto simp: add_dependent_def fun_eq_iff split: option.splits)

lemma fold_add_dependent_eq:
  "fold (add_dependent name) ds D
     = (\<lambda>n. if n \<in> set ds then map_option (set_add name) (D n) else D n)"
proof (induction ds arbitrary: D)
  case Nil
  show ?case by simp
next
  case (Cons d ds)
  have "fold (add_dependent name) (d # ds) D
          = fold (add_dependent name) ds (add_dependent name d D)"
    by simp
  also have "\<dots> = (\<lambda>n. if n \<in> set ds then map_option (set_add name) (add_dependent name d D n)
                       else add_dependent name d D n)"
    by (rule Cons.IH)
  also have "\<dots> = (\<lambda>n. if n \<in> set (d # ds) then map_option (set_add name) (D n) else D n)"
  proof (rule ext)
    fix n
    show "(if n \<in> set ds then map_option (set_add name) (add_dependent name d D n)
           else add_dependent name d D n)
          = (if n \<in> set (d # ds) then map_option (set_add name) (D n) else D n)"
      by (cases "D n") (auto simp: add_dependent_eq [of name d D])
  qed
  finally show ?case .
qed

definition dependents_ok :: "'d node_map \<Rightarrow> (string \<rightharpoonup> string list) \<Rightarrow> bool" where
  "dependents_ok m D \<longleftrightarrow>
     (\<forall>n. if n \<in> fst ` set m
          then \<exists>s. D n = Some s \<and> distinct s
                 \<and> set s = {x \<in> fst ` set m. n \<in> set (deps_of m x)}
          else D n = None)"

lemma fold_dependents_rel:
  "rel_option (\<lambda>s0 s. (distinct s0 \<longrightarrow> distinct s)
        \<and> set s = set s0 \<union> {x. \<exists>node. (x, node) \<in> set es \<and> n \<in> set (dependencies node)})
     (Dz n)
     (fold (\<lambda>(name, node) dependents. fold (add_dependent name) (dependencies node) dependents)
        es Dz n)"
proof (induction es arbitrary: Dz)
  case Nil
  show ?case by (cases "Dz n") simp_all
next
  case (Cons e es)
  obtain name node where e: "e = (name, node)" by (cases e)
  let ?D1 = "fold (add_dependent name) (dependencies node) Dz"
  show ?case
  proof (cases "Dz n")
    case None
    then have "?D1 n = None" by (simp add: fold_add_dependent_eq)
    with Cons.IH [of ?D1] None show ?thesis by (simp add: e)
  next
    case (Some s0)
    then have D1: "?D1 n = Some (if n \<in> set (dependencies node) then set_add name s0 else s0)"
      by (simp add: fold_add_dependent_eq)
    from Cons.IH [of ?D1] show ?thesis
      unfolding e using Some D1
      by (cases "n \<in> set (dependencies node)") (auto simp: option_rel_Some1)
  qed
qed

lemma build_dependents_ok:
  assumes "distinct (map fst m)"
  shows "dependents_ok m (build_dependents m)"
  unfolding dependents_ok_def
proof (intro allI)
  fix n
  have keys: "{x. \<exists>node. (x, node) \<in> set m \<and> n \<in> set (dependencies node)}
                = {x \<in> fst ` set m. n \<in> set (deps_of m x)}"
    using assms by (force simp: deps_of_def split: option.splits)
  from fold_dependents_rel [where es = m and n = n and Dz = "init_dependents m"]
  show "if n \<in> fst ` set m
        then \<exists>s. build_dependents m n = Some s \<and> distinct s
               \<and> set s = {x \<in> fst ` set m. n \<in> set (deps_of m x)}
        else build_dependents m n = None"
    unfolding build_dependents_def [symmetric] keys
    by (auto simp: init_dependents_eq option_rel_Some1 split: if_splits)
qed

subsection \<open>The in-degrees while a level is processed\<close>

text \<open>
  \<open>Pr\<close> is the set of names whose dependents have been decremented so far, \<open>Q\<close> the
  names that have entered a queue up to the current level.
\<close>

definition level_inv :: "'d node_map \<Rightarrow> string set \<Rightarrow> string set \<Rightarrow> 'd kahn_state \<Rightarrow> bool" where
  "level_inv m Pr Q st \<longleftrightarrow>
     (\<forall>n \<in> fst ` set m.
        map_of (st_inDegree st) n = Some (initDeg m n - int (card (in_deps m n \<inter> Pr))))
   \<and> (\<forall>n \<in> fst ` set m.
        initDeg m n = int (card (in_deps m n \<inter> Pr)) \<longleftrightarrow> n \<in> Q \<or> n \<in> set (nextQueue st))
   \<and> distinct (nextQueue st)
   \<and> set (nextQueue st) \<inter> Q = {}
   \<and> set (nextQueue st) \<subseteq> fst ` set m"

lemma card_in_deps_insert:
  "x \<notin> Pr \<Longrightarrow>
     card (in_deps m n \<inter> insert x Pr)
       = card (in_deps m n \<inter> Pr) + (if x \<in> in_deps m n then 1 else 0)"
proof (cases "x \<in> in_deps m n")
  case True
  assume "x \<notin> Pr"
  with True have "in_deps m n \<inter> insert x Pr = insert x (in_deps m n \<inter> Pr)"
    and "x \<notin> in_deps m n \<inter> Pr" by auto
  then show ?thesis using True by simp
next
  case False
  then have "in_deps m n \<inter> insert x Pr = in_deps m n \<inter> Pr" by auto
  then show ?thesis using False by simp
qed

lemma pending_dep_positive:
  assumes "x \<in> in_deps m n" "x \<notin> Pr"
  shows "int (card (in_deps m n \<inter> Pr)) < initDeg m n"
proof -
  have "in_deps m n \<inter> Pr \<subset> in_deps m n" using assms by auto
  then have "card (in_deps m n \<inter> Pr) < card (in_deps m n)"
    by (intro psubset_card_mono) simp_all
  with card_in_deps_le [of m n] show ?thesis by linarith
qed

lemma process_node_level_inv:
  assumes inv: "level_inv m Pr Q st"
    and x: "x \<in> fst ` set m" "x \<notin> Pr"
    and D: "dependents_ok m D"
  shows "level_inv m (insert x Pr) Q (process_node D l x st)"
proof -
  let ?K = "fst ` set m"
  from D x(1) obtain ds where ds: "D x = Some ds" "distinct ds"
    "set ds = {y \<in> ?K. x \<in> set (deps_of m y)}"
    unfolding dependents_ok_def by (metis (no_types, lifting))
  let ?st1 = "st\<lparr>st_nodes := AList.map_entry x (\<lambda>node. node\<lparr>level := Some l\<rparr>) (st_nodes st),
                  st_nodeLevel := (st_nodeLevel st)(x \<mapsto> l),
                  levelNodes := levelNodes st @ [x],
                  st_processedCount := st_processedCount st + 1\<rparr>"
  have pn: "process_node D l x st = fold decrement ds ?st1"
    by (simp add: process_node_def ds(1))
  have eq1: "st_inDegree ?st1 = st_inDegree st" "nextQueue ?st1 = nextQueue st"
    by simp_all
  from fold_decrement_closed [OF ds(2), of ?st1, unfolded eq1, folded pn]
  have deg': "map_of (st_inDegree (process_node D l x st)) =
       (\<lambda>n. if n \<in> set ds then map_option (\<lambda>v. v - 1) (map_of (st_inDegree st) n)
            else map_of (st_inDegree st) n)"
    and nq': "nextQueue (process_node D l x st) =
       nextQueue st @ filter (\<lambda>d. map_of (st_inDegree st) d = Some 1) ds"
    by blast+
  have mem: "n \<in> set ds \<longleftrightarrow> x \<in> in_deps m n" if "n \<in> ?K" for n
    using that x(1) by (auto simp: ds(3) in_deps_def has_iff)
  from inv have deg: "\<And>n. n \<in> ?K \<Longrightarrow>
        map_of (st_inDegree st) n = Some (initDeg m n - int (card (in_deps m n \<inter> Pr)))"
    and zero: "\<And>n. n \<in> ?K \<Longrightarrow>
        initDeg m n = int (card (in_deps m n \<inter> Pr)) \<longleftrightarrow> n \<in> Q \<or> n \<in> set (nextQueue st)"
    and dist: "distinct (nextQueue st)" and disj: "set (nextQueue st) \<inter> Q = {}"
    and sub: "set (nextQueue st) \<subseteq> ?K"
    unfolding level_inv_def by blast+
  have fresh: "n \<notin> Q \<and> n \<notin> set (nextQueue st)" if "n \<in> set ds" for n
  proof -
    from that have n: "n \<in> ?K" by (simp add: ds(3))
    with that have "x \<in> in_deps m n" by (simp add: mem)
    from pending_dep_positive [OF this x(2)] zero [OF n] show ?thesis by auto
  qed
  have pushed: "n \<in> set (filter (\<lambda>d. map_of (st_inDegree st) d = Some 1) ds)
                \<longleftrightarrow> x \<in> in_deps m n \<and> initDeg m n = int (card (in_deps m n \<inter> Pr)) + 1"
    if "n \<in> ?K" for n
    using mem [OF that] deg [OF that] by auto
  show ?thesis
    unfolding level_inv_def
  proof (intro conjI ballI)
    fix n assume n: "n \<in> ?K"
    show "map_of (st_inDegree (process_node D l x st)) n
            = Some (initDeg m n - int (card (in_deps m n \<inter> insert x Pr)))"
      unfolding card_in_deps_insert [OF x(2)] using mem [OF n] deg [OF n]
      by (simp add: deg')
  next
    fix n assume n: "n \<in> ?K"
    show "initDeg m n = int (card (in_deps m n \<inter> insert x Pr))
            \<longleftrightarrow> n \<in> Q \<or> n \<in> set (nextQueue (process_node D l x st))"
    proof (cases "x \<in> in_deps m n")
      case True
      with mem [OF n] fresh [of n] have "n \<notin> Q" "n \<notin> set (nextQueue st)" by simp_all
      then show ?thesis
        unfolding card_in_deps_insert [OF x(2)] using True pushed [OF n] by (auto simp: nq')
    next
      case False
      then show ?thesis
        unfolding card_in_deps_insert [OF x(2)] using zero [OF n] pushed [OF n] by (auto simp: nq')
    qed
  next
    show "distinct (nextQueue (process_node D l x st))"
      using dist ds(2) fresh by (auto simp: nq')
  next
    show "set (nextQueue (process_node D l x st)) \<inter> Q = {}"
      using disj fresh by (auto simp: nq')
  next
    show "set (nextQueue (process_node D l x st)) \<subseteq> ?K"
      using sub by (auto simp: nq' ds(3))
  qed
qed

lemma fold_process_node_level_inv:
  assumes "level_inv m Pr Q st" "distinct q" "set q \<subseteq> fst ` set m" "set q \<inter> Pr = {}"
    and "dependents_ok m D"
  shows "level_inv m (Pr \<union> set q) Q (fold (process_node D l) q st)"
  using assms(1-4)
proof (induction q arbitrary: Pr st)
  case Nil
  then show ?case by simp
next
  case (Cons x q)
  from Cons.prems have x: "x \<in> fst ` set m" "x \<notin> Pr" by auto
  have "level_inv m (insert x Pr) Q (process_node D l x st)"
    by (rule process_node_level_inv [OF Cons.prems(1) x assms(5)])
  from Cons.IH [OF this] Cons.prems
  have "level_inv m (insert x Pr \<union> set q) Q (fold (process_node D l) q (process_node D l x st))"
    by auto
  then show ?case by simp
qed

subsection \<open>The invariant of the while loop\<close>

definition kahn_inv :: "'d node_map \<Rightarrow> 'd kahn_state \<Rightarrow> bool" where
  "kahn_inv m st \<longleftrightarrow>
     distinct (concat (st_levels st) @ st_queue st)
   \<and> set (st_queue st) \<subseteq> fst ` set m
   \<and> set (concat (st_levels st)) \<subseteq> fst ` set m
   \<and> st_processedCount st = length (concat (st_levels st))
   \<and> (\<forall>n i. st_nodeLevel st n = Some i
            \<longleftrightarrow> i < length (st_levels st) \<and> n \<in> set (st_levels st ! i))
   \<and> level_inv m (set (concat (st_levels st)))
        (set (concat (st_levels st)) \<union> set (st_queue st)) (st\<lparr>nextQueue := []\<rparr>)
   \<and> (\<forall>i < length (st_levels st). \<forall>n \<in> set (st_levels st ! i). \<forall>d \<in> in_deps m n.
          \<exists>j < i. d \<in> set (st_levels st ! j))
   \<and> map fst (st_nodes st) = map fst m
   \<and> (\<forall>n node. map_of m n = Some node \<longrightarrow>
          map_of (st_nodes st) n
            = Some (case st_nodeLevel st n of None \<Rightarrow> node | Some l \<Rightarrow> node\<lparr>level := Some l\<rparr>))"

lemma level_inv_cong:
  "st_inDegree st = st_inDegree st' \<Longrightarrow> nextQueue st = nextQueue st'
     \<Longrightarrow> level_inv m Pr Q st = level_inv m Pr Q st'"
  by (simp add: level_inv_def)

lemma level_inv_deps_done:
  assumes "level_inv m Pr Q st" "n \<in> fst ` set m" "n \<in> Q \<or> n \<in> set (nextQueue st)"
  shows "in_deps m n \<subseteq> Pr"
proof -
  from assms have "initDeg m n = int (card (in_deps m n \<inter> Pr))"
    unfolding level_inv_def by blast
  with card_in_deps_le [of m n] have "card (in_deps m n) \<le> card (in_deps m n \<inter> Pr)"
    by linarith
  then have "in_deps m n \<inter> Pr = in_deps m n"
    by (intro card_seteq) simp_all
  then show ?thesis by blast
qed

lemma in_concat_nth: "x \<in> set (concat xss) \<longleftrightarrow> (\<exists>j < length xss. x \<in> set (xss ! j))"
proof -
  have "x \<in> set (concat xss) \<longleftrightarrow> (\<exists>xs \<in> set xss. x \<in> set xs)" by auto
  also have "\<dots> \<longleftrightarrow> (\<exists>j < length xss. x \<in> set (xss ! j))"
    by (metis in_set_conv_nth)
  finally show ?thesis .
qed

lemma process_level_eq:
  "st_levels (process_level D st) = st_levels st @ [st_queue st]"
  "st_queue (process_level D st)
     = nextQueue (fold (process_node D (length (st_levels st))) (st_queue st)
                    (st\<lparr>levelNodes := [], nextQueue := []\<rparr>))"
  "st_processedCount (process_level D st) = st_processedCount st + length (st_queue st)"
  "st_nodeLevel (process_level D st)
     = (\<lambda>n. if n \<in> set (st_queue st) then Some (length (st_levels st)) else st_nodeLevel st n)"
  "st_inDegree (process_level D st)
     = st_inDegree (fold (process_node D (length (st_levels st))) (st_queue st)
                    (st\<lparr>levelNodes := [], nextQueue := []\<rparr>))"
  "map fst (st_nodes (process_level D st)) = map fst (st_nodes st)"
  "map_of (st_nodes (process_level D st))
     = (\<lambda>n. if n \<in> set (st_queue st)
            then map_option (\<lambda>node. node\<lparr>level := Some (length (st_levels st))\<rparr>)
                   (map_of (st_nodes st) n)
            else map_of (st_nodes st) n)"
  using fold_process_node_store [of D "length (st_levels st)" "st_queue st"
          "st\<lparr>levelNodes := [], nextQueue := []\<rparr>"]
  by (simp_all add: process_level_def Let_def fold_process_node_fields
        fold_process_node_nodeLevel cong: if_cong)

lemma process_level_inv:
  assumes inv: "kahn_inv m st" and D: "dependents_ok m D"
  shows "kahn_inv m (process_level D st)"
proof -
  let ?K = "fst ` set m"
  let ?L = "length (st_levels st)"
  let ?P = "set (concat (st_levels st))"
  let ?q = "st_queue st"
  let ?st0 = "st\<lparr>levelNodes := [], nextQueue := []\<rparr>"
  let ?st' = "fold (process_node D ?L) ?q ?st0"
  let ?nq = "nextQueue ?st'"
  from inv have dist: "distinct (concat (st_levels st) @ ?q)"
    and qK: "set ?q \<subseteq> ?K" and PK: "?P \<subseteq> ?K"
    and cnt: "st_processedCount st = length (concat (st_levels st))"
    and nl: "\<And>n i. st_nodeLevel st n = Some i \<longleftrightarrow> i < ?L \<and> n \<in> set (st_levels st ! i)"
    and li: "level_inv m ?P (?P \<union> set ?q) (st\<lparr>nextQueue := []\<rparr>)"
    and ord: "\<And>i n d. i < ?L \<Longrightarrow> n \<in> set (st_levels st ! i) \<Longrightarrow> d \<in> in_deps m n
                \<Longrightarrow> \<exists>j < i. d \<in> set (st_levels st ! j)"
    and keys: "map fst (st_nodes st) = map fst m"
    and store: "\<And>n node. map_of m n = Some node \<Longrightarrow>
          map_of (st_nodes st) n
            = Some (case st_nodeLevel st n of None \<Rightarrow> node | Some l \<Rightarrow> node\<lparr>level := Some l\<rparr>)"
    unfolding kahn_inv_def by blast+
  have li0: "level_inv m ?P (?P \<union> set ?q) ?st0"
    using li by (simp add: level_inv_cong [of ?st0 "st\<lparr>nextQueue := []\<rparr>"])
  have li': "level_inv m (?P \<union> set ?q) (?P \<union> set ?q) ?st'"
    by (rule fold_process_node_level_inv [OF li0 _ qK _ D]) (use dist in auto)
  then have nq: "distinct ?nq" "set ?nq \<inter> (?P \<union> set ?q) = {}" "set ?nq \<subseteq> ?K"
    unfolding level_inv_def by blast+
  have lev: "st_levels (process_level D st) = st_levels st @ [?q]"
    and que: "st_queue (process_level D st) = ?nq"
    by (simp_all add: process_level_eq)
  have P': "set (concat (st_levels (process_level D st))) = ?P \<union> set ?q"
    by (simp add: lev)
  have fresh: "n \<notin> ?P" if "n \<in> set ?q" for n
    using dist that by auto
  show ?thesis
    unfolding kahn_inv_def
  proof (intro conjI allI impI ballI)
    show "distinct (concat (st_levels (process_level D st)) @ st_queue (process_level D st))"
      using dist nq by (auto simp: lev que)
  next
    show "set (st_queue (process_level D st)) \<subseteq> ?K"
      using nq by (simp add: que)
  next
    show "set (concat (st_levels (process_level D st))) \<subseteq> ?K"
      unfolding P' using PK qK by simp
  next
    show "st_processedCount (process_level D st)
            = length (concat (st_levels (process_level D st)))"
      by (simp add: process_level_eq cnt)
  next
    fix n i
    show "st_nodeLevel (process_level D st) n = Some i
            \<longleftrightarrow> i < length (st_levels (process_level D st))
                \<and> n \<in> set (st_levels (process_level D st) ! i)"
    proof (cases "n \<in> set ?q")
      case True
      have "n \<notin> set (st_levels st ! j)" if "j < ?L" for j
        using fresh [OF True] that unfolding in_concat_nth by blast
      then show ?thesis
        using True by (auto simp: process_level_eq nth_append less_Suc_eq)
    next
      case False
      then show ?thesis
        by (auto simp: process_level_eq nl nth_append less_Suc_eq)
    qed
  next
    show "level_inv m (set (concat (st_levels (process_level D st))))
            (set (concat (st_levels (process_level D st))) \<union> set (st_queue (process_level D st)))
            ((process_level D st)\<lparr>nextQueue := []\<rparr>)"
      unfolding P' que
      using li' by (auto simp: level_inv_def process_level_eq)
  next
    fix i n d
    assume i: "i < length (st_levels (process_level D st))"
      and n: "n \<in> set (st_levels (process_level D st) ! i)" and d: "d \<in> in_deps m n"
    show "\<exists>j<i. d \<in> set (st_levels (process_level D st) ! j)"
    proof (cases "i < ?L")
      case True
      with n have "n \<in> set (st_levels st ! i)" by (simp add: lev nth_append)
      from ord [OF True this d] obtain j where j: "j < i" "d \<in> set (st_levels st ! j)" by blast
      with True have "d \<in> set (st_levels (process_level D st) ! j)"
        by (simp add: lev nth_append)
      with j(1) show ?thesis by blast
    next
      case False
      with i have iL: "i = ?L" by (simp add: lev)
      with n have nq: "n \<in> set ?q" by (simp add: lev)
      with qK have "n \<in> ?K" by blast
      from level_inv_deps_done [OF li this] nq d have "d \<in> ?P" by auto
      then obtain j where j: "j < ?L" "d \<in> set (st_levels st ! j)"
        unfolding in_concat_nth by blast
      then have "d \<in> set (st_levels (process_level D st) ! j)"
        by (simp add: lev nth_append)
      with j(1) show ?thesis unfolding iL by blast
    qed
  next
    show "map fst (st_nodes (process_level D st)) = map fst m"
      by (simp add: process_level_eq keys)
  next
    fix n node assume mn: "map_of m n = Some node"
    show "map_of (st_nodes (process_level D st)) n
            = Some (case st_nodeLevel (process_level D st) n of
                      None \<Rightarrow> node | Some l \<Rightarrow> node\<lparr>level := Some l\<rparr>)"
      using store [OF mn]
      by (auto simp: process_level_eq split: option.splits)
  qed
qed

lemma kahn_loop_inv:
  assumes "kahn_inv m st" "dependents_ok m D"
  shows "kahn_inv m (kahn_loop D st) \<and> st_queue (kahn_loop D st) = []"
  using assms
proof (induction D st rule: kahn_loop.induct)
  case (1 D st)
  show ?case
  proof (cases "st_queue st = []")
    case True
    with "1.prems" show ?thesis by (simp add: kahn_loop.simps [of D st])
  next
    case False
    have "kahn_inv m (process_level D st)"
      by (rule process_level_inv [OF "1.prems"])
    from "1.IH" [OF False this "1.prems"(2)] show ?thesis
      using False by (simp add: kahn_loop.simps [of D st])
  qed
qed

subsection \<open>The state when the loop ends\<close>

definition final_state :: "'d node_map \<Rightarrow> 'd kahn_state" where
  "final_state m =
     kahn_loop (build_dependents m)
       \<lparr>st_nodes = m, st_inDegree = init_inDegree m, st_queue = init_queue (init_inDegree m),
        st_levels = [], st_nodeLevel = Map.empty, st_processedCount = 0,
        levelNodes = [], nextQueue = []\<rparr>"

lemma buildLeveledDAG_final:
  "buildLeveledDAG m =
     (if st_processedCount (final_state m) \<noteq> length m
      then Inl (Error (''Circular dependency detected involving: ''
                  @ join '', '' (filter (\<lambda>n. st_nodeLevel (final_state m) n = None) (map fst m))))
      else Inr \<lparr>nodes = st_nodes (final_state m),
                levels = st_levels (final_state m),
                roots = filter (\<lambda>name. case build_dependents m name of
                                           None \<Rightarrow> True | Some deps \<Rightarrow> deps = [])
                          (map fst m),
                leaves = filter (\<lambda>name. case map_of (st_nodes (final_state m)) name of
                                            None \<Rightarrow> False
                                          | Some node \<Rightarrow> depsInDag (st_nodes (final_state m)) node = [])
                          (map fst m)\<rparr>)"
  unfolding buildLeveledDAG_def final_state_def Let_def ..

lemma init_inv:
  assumes "distinct (map fst m)"
  shows "kahn_inv m \<lparr>st_nodes = m, st_inDegree = init_inDegree m,
            st_queue = init_queue (init_inDegree m),
            st_levels = [], st_nodeLevel = Map.empty, st_processedCount = 0,
            levelNodes = [], nextQueue = []\<rparr>"
  unfolding kahn_inv_def level_inv_def
  using init_queue_set [OF assms] map_of_init_inDegree [OF assms]
  by (auto simp: has_iff)

lemma final_inv:
  assumes "distinct (map fst m)"
  shows "kahn_inv m (final_state m)" and "st_queue (final_state m) = []"
  using kahn_loop_inv [OF init_inv [OF assms] build_dependents_ok [OF assms]]
  by (simp_all add: final_state_def)

lemma final_facts:
  assumes "distinct (map fst m)"
  shows "distinct (concat (st_levels (final_state m)))"
    and "set (concat (st_levels (final_state m))) \<subseteq> fst ` set m"
    and "st_processedCount (final_state m) = length (concat (st_levels (final_state m)))"
    and "st_nodeLevel (final_state m) n = Some i
           \<longleftrightarrow> i < length (st_levels (final_state m)) \<and> n \<in> set (st_levels (final_state m) ! i)"
    and "i < length (st_levels (final_state m)) \<Longrightarrow> n \<in> set (st_levels (final_state m) ! i)
           \<Longrightarrow> d \<in> in_deps m n \<Longrightarrow> \<exists>j < i. d \<in> set (st_levels (final_state m) ! j)"
    and "map fst (st_nodes (final_state m)) = map fst m"
    and "map_of m n = Some node \<Longrightarrow>
          map_of (st_nodes (final_state m)) n
            = Some (case st_nodeLevel (final_state m) n of
                      None \<Rightarrow> node | Some l \<Rightarrow> node\<lparr>level := Some l\<rparr>)"
proof -
  note inv = final_inv [OF assms]
  show "distinct (concat (st_levels (final_state m)))"
    using inv unfolding kahn_inv_def by simp
  show "set (concat (st_levels (final_state m))) \<subseteq> fst ` set m"
    using inv(1) unfolding kahn_inv_def by blast
  show "st_processedCount (final_state m) = length (concat (st_levels (final_state m)))"
    using inv(1) unfolding kahn_inv_def by blast
  show "st_nodeLevel (final_state m) n = Some i
           \<longleftrightarrow> i < length (st_levels (final_state m)) \<and> n \<in> set (st_levels (final_state m) ! i)"
    using inv(1) unfolding kahn_inv_def by blast
  show "i < length (st_levels (final_state m)) \<Longrightarrow> n \<in> set (st_levels (final_state m) ! i)
           \<Longrightarrow> d \<in> in_deps m n \<Longrightarrow> \<exists>j < i. d \<in> set (st_levels (final_state m) ! j)"
    using inv(1) unfolding kahn_inv_def by blast
  show "map fst (st_nodes (final_state m)) = map fst m"
    using inv(1) unfolding kahn_inv_def by blast
  show "map_of m n = Some node \<Longrightarrow>
          map_of (st_nodes (final_state m)) n
            = Some (case st_nodeLevel (final_state m) n of
                      None \<Rightarrow> node | Some l \<Rightarrow> node\<lparr>level := Some l\<rparr>)"
    using inv(1) unfolding kahn_inv_def by blast
qed

text \<open>When the loop ends, the names with in-degree zero are the processed ones.\<close>

lemma final_zero:
  assumes "distinct (map fst m)" "n \<in> fst ` set m"
  shows "initDeg m n = int (card (in_deps m n \<inter> set (concat (st_levels (final_state m)))))
           \<longleftrightarrow> n \<in> set (concat (st_levels (final_state m)))"
proof -
  let ?st = "final_state m"
  from final_inv [OF assms(1)]
  have "level_inv m (set (concat (st_levels ?st)))
          (set (concat (st_levels ?st)) \<union> set (st_queue ?st)) (?st\<lparr>nextQueue := []\<rparr>)"
    and "st_queue ?st = []"
    unfolding kahn_inv_def by blast+
  then have "level_inv m (set (concat (st_levels ?st))) (set (concat (st_levels ?st)))
               (?st\<lparr>nextQueue := []\<rparr>)"
    by simp
  then have "\<forall>n \<in> fst ` set m.
        initDeg m n = int (card (in_deps m n \<inter> set (concat (st_levels ?st))))
          \<longleftrightarrow> n \<in> set (concat (st_levels ?st)) \<or> n \<in> set (nextQueue (?st\<lparr>nextQueue := []\<rparr>))"
    unfolding level_inv_def by blast
  from bspec [OF this assms(2)] show ?thesis by simp
qed

lemma processed_all:
  assumes "distinct (map fst m)" "st_processedCount (final_state m) = length m"
  shows "set (concat (st_levels (final_state m))) = fst ` set m"
proof (rule card_subset_eq)
  show "finite (fst ` set m)" by simp
  show "set (concat (st_levels (final_state m))) \<subseteq> fst ` set m"
    by (rule final_facts(2) [OF assms(1)])
  have "card (set (concat (st_levels (final_state m)))) = length (concat (st_levels (final_state m)))"
    by (rule distinct_card [OF final_facts(1) [OF assms(1)]])
  also have "\<dots> = length m"
    using final_facts(3) [OF assms(1)] assms(2) by simp
  also have "\<dots> = card (fst ` set m)"
    using distinct_card [OF assms(1)] by simp
  finally show "card (set (concat (st_levels (final_state m)))) = card (fst ` set m)" .
qed

lemma concat_precede:
  assumes "\<And>i n d. i < length xss \<Longrightarrow> n \<in> set (xss ! i) \<Longrightarrow> d \<in> R n
             \<Longrightarrow> \<exists>j < i. d \<in> set (xss ! j)"
    and "q < length (concat xss)" "d \<in> R (concat xss ! q)"
  shows "\<exists>p < q. concat xss ! p = d"
  using assms
proof (induction xss arbitrary: q d rule: rev_induct)
  case Nil
  then show ?case by simp
next
  case (snoc xs xss)
  have pre: "\<exists>j < i. d \<in> set (xss ! j)"
    if "i < length xss" "n \<in> set (xss ! i)" "d \<in> R n" for i n d
  proof -
    from that have "i < length (xss @ [xs])" "n \<in> set ((xss @ [xs]) ! i)"
      by (simp_all add: nth_append)
    from snoc.prems(1) [OF this that(3)]
    obtain j where j: "j < i" "d \<in> set ((xss @ [xs]) ! j)" by blast
    with that(1) have "d \<in> set (xss ! j)" by (simp add: nth_append)
    with j(1) show ?thesis by blast
  qed
  show ?case
  proof (cases "q < length (concat xss)")
    case True
    with snoc.prems(3) have "d \<in> R (concat xss ! q)" by (simp add: nth_append)
    have "\<exists>p<q. concat xss ! p = d"
    proof (rule snoc.IH)
      show "\<exists>j<i. d \<in> set (xss ! j)"
        if "i < length xss" "n \<in> set (xss ! i)" "d \<in> R n" for i n d
        using that by (rule pre)
      show "q < length (concat xss)" by (rule True)
      show "d \<in> R (concat xss ! q)" by fact
    qed
    then obtain p where p: "p < q" "concat xss ! p = d" by blast
    with True have "concat (xss @ [xs]) ! p = d" by (simp add: nth_append)
    with p(1) show ?thesis by blast
  next
    case False
    with snoc.prems(2,3) have "concat (xss @ [xs]) ! q \<in> set xs"
      by (simp add: nth_append)
    then have "concat (xss @ [xs]) ! q \<in> set ((xss @ [xs]) ! length xss)" by simp
    from snoc.prems(1) [OF _ this snoc.prems(3)]
    obtain j where j: "j < length xss" "d \<in> set ((xss @ [xs]) ! j)" by auto
    then have "d \<in> set (xss ! j)" by (simp add: nth_append)
    with j(1) have "d \<in> set (concat xss)" unfolding in_concat_nth by blast
    then obtain p where p: "p < length (concat xss)" "concat xss ! p = d"
      unfolding in_set_conv_nth by blast
    then have "concat (xss @ [xs]) ! p = d" by (simp add: nth_append)
    moreover from p(1) False have "p < q" by simp
    ultimately show ?thesis by blast
  qed
qed

lemma level_unique:
  assumes "distinct (map fst m)"
    and "i < length (st_levels (final_state m))" "n \<in> set (st_levels (final_state m) ! i)"
    and "j < length (st_levels (final_state m))" "n \<in> set (st_levels (final_state m) ! j)"
  shows "i = j"
proof -
  from assms have "st_nodeLevel (final_state m) n = Some i" "st_nodeLevel (final_state m) n = Some j"
    by (simp_all add: final_facts(4))
  then show ?thesis by simp
qed

lemma map_filter_all_Some:
  "(\<And>x. x \<in> set xs \<Longrightarrow> f x \<noteq> None) \<Longrightarrow> map Some (List.map_filter f xs) = map f xs"
  by (induction xs) (auto simp: List.map_filter_simps split: option.splits)

text \<open>
  C1. When \<open>buildLeveledDAG\<close> succeeds on a map (distinct keys), the levels partition the
  keys: the flattened order has as many items as the map and resolves every entry to an
  item of the map, no key occurs twice, every key occurs, each key lies in exactly one
  level, every dependency that is a key lies in a strictly lower level than its
  dependent, and so precedes it in the flattened order.
\<close>

theorem buildLeveledDAG_levels_partition:
  assumes "distinct (map fst m)" and "buildLeveledDAG m = Inr dag"
  shows "length (getTopologicalOrder dag) = length m
       \<and> map Some (getTopologicalOrder dag) = map (map_of (nodes dag)) (concat (levels dag))
       \<and> distinct (concat (levels dag))
       \<and> set (concat (levels dag)) = fst ` set m
       \<and> (\<forall>n \<in> fst ` set m. \<exists>!i. i < length (levels dag) \<and> n \<in> set (levels dag ! i))
       \<and> (\<forall>i < length (levels dag). \<forall>n \<in> set (levels dag ! i). \<forall>d \<in> set (deps_of m n).
             has m d \<longrightarrow> (\<exists>j < i. d \<in> set (levels dag ! j)))
       \<and> (\<forall>q < length (concat (levels dag)). \<forall>d \<in> set (deps_of m (concat (levels dag) ! q)).
             has m d \<longrightarrow> (\<exists>p < q. concat (levels dag) ! p = d))"
proof -
  let ?st = "final_state m"
  from assms(2) have cnt: "st_processedCount ?st = length m"
    and lv: "levels dag = st_levels ?st" and nd: "nodes dag = st_nodes ?st"
    by (auto simp: buildLeveledDAG_final split: if_splits)
  note ff = final_facts [OF assms(1)]
  have all: "set (concat (st_levels ?st)) = fst ` set m"
    by (rule processed_all [OF assms(1) cnt])
  have len: "length (concat (st_levels ?st)) = length m"
    using ff(3) cnt by simp
  have found: "map_of (st_nodes ?st) n \<noteq> None" if "n \<in> set (concat (st_levels ?st))" for n
  proof -
    from that all have "n \<in> fst ` set (st_nodes ?st)"
      using ff(6) by (metis list.set_map)
    then show ?thesis by (simp add: map_of_eq_None_iff)
  qed
  have resolved: "map Some (getTopologicalOrder dag)
                    = map (map_of (nodes dag)) (concat (levels dag))"
    unfolding getTopologicalOrder_def lv nd by (rule map_filter_all_Some) (rule found)
  then have "length (map Some (getTopologicalOrder dag))
               = length (map (map_of (nodes dag)) (concat (levels dag)))"
    by (rule arg_cong)
  then have c1: "length (getTopologicalOrder dag) = length m"
    by (simp add: lv len)
  have c5: "\<exists>!i. i < length (levels dag) \<and> n \<in> set (levels dag ! i)" if "n \<in> fst ` set m" for n
  proof -
    from that all have "n \<in> set (concat (st_levels ?st))" by simp
    then obtain i where "i < length (st_levels ?st)" "n \<in> set (st_levels ?st ! i)"
      unfolding in_concat_nth by blast
    then show ?thesis
      unfolding lv by (intro ex1I [of _ i]) (auto intro: level_unique [OF assms(1)])
  qed
  have c6: "\<exists>j < i. d \<in> set (levels dag ! j)"
    if "i < length (levels dag)" "n \<in> set (levels dag ! i)" "d \<in> set (deps_of m n)" "has m d"
    for i n d
    using ff(5) [of i n d] that by (simp add: lv in_deps_def)
  have c7: "\<exists>p < q. concat (levels dag) ! p = d"
    if "q < length (concat (levels dag))" "d \<in> set (deps_of m (concat (levels dag) ! q))" "has m d"
    for q d
  proof (rule concat_precede [where R = "in_deps m"])
    show "\<exists>j<i. d \<in> set (levels dag ! j)"
      if "i < length (levels dag)" "n \<in> set (levels dag ! i)" "d \<in> in_deps m n" for i n d
      using c6 [of i n d] that by (simp add: in_deps_def)
    show "q < length (concat (levels dag))" by fact
    show "d \<in> in_deps m (concat (levels dag) ! q)" using that by (simp add: in_deps_def)
  qed
  show ?thesis
  proof (intro conjI ballI allI impI)
    show "length (getTopologicalOrder dag) = length m" by (rule c1)
    show "map Some (getTopologicalOrder dag) = map (map_of (nodes dag)) (concat (levels dag))"
      by (rule resolved)
    show "distinct (concat (levels dag))" unfolding lv by (rule ff(1))
    show "set (concat (levels dag)) = fst ` set m" unfolding lv by (rule all)
    show "\<exists>!i. i < length (levels dag) \<and> n \<in> set (levels dag ! i)" if "n \<in> fst ` set m" for n
      using that by (rule c5)
    show "\<exists>j<i. d \<in> set (levels dag ! j)"
      if "i < length (levels dag)" "n \<in> set (levels dag ! i)" "d \<in> set (deps_of m n)" "has m d"
      for i n d
      using that by (rule c6)
    show "\<exists>p<q. concat (levels dag) ! p = d"
      if "q < length (concat (levels dag))" "d \<in> set (deps_of m (concat (levels dag) ! q))"
        "has m d" for q d
      using that by (rule c7)
  qed
qed

definition wit_map :: "unit node_map" where
  "wit_map =
     [(''a'', \<lparr>id_of = ''a'', dependencies = [], level = None, data = None\<rparr>),
      (''b'', \<lparr>id_of = ''b'', dependencies = [''a'', ''ext''], level = None, data = None\<rparr>),
      (''c'', \<lparr>id_of = ''c'', dependencies = [''a'', ''b''], level = None, data = None\<rparr>)]"

definition wit_dag :: "unit DependencyDAG" where
  "wit_dag =
     \<lparr>nodes =
        [(''a'', \<lparr>id_of = ''a'', dependencies = [], level = Some 0, data = None\<rparr>),
         (''b'', \<lparr>id_of = ''b'', dependencies = [''a'', ''ext''], level = Some 1, data = None\<rparr>),
         (''c'', \<lparr>id_of = ''c'', dependencies = [''a'', ''b''], level = Some 2, data = None\<rparr>)],
      levels = [[''a''], [''b''], [''c'']], roots = [''c''], leaves = [''a'']\<rparr>"

lemmas kahn_eval =
  buildLeveledDAG_def init_inDegree_def build_dependents_def init_dependents_def
  add_dependent_def set_add_def depsInDag_def has_def init_queue_def kahn_loop.simps
  process_level_def process_node_def decrement_def Let_def

lemma wit_build: "buildLeveledDAG wit_map = Inr wit_dag"
  by (simp add: wit_map_def wit_dag_def kahn_eval)

theorem buildLeveledDAG_levels_partition_witness:
  "distinct (map fst wit_map) \<and> buildLeveledDAG wit_map = Inr wit_dag
   \<and> length (getTopologicalOrder wit_dag) = length wit_map
   \<and> distinct (concat (levels wit_dag))
   \<and> set (concat (levels wit_dag)) = fst ` set wit_map"
proof -
  have d: "distinct (map fst wit_map)" by (simp add: wit_map_def)
  from buildLeveledDAG_levels_partition [OF d wit_build] d wit_build
  show ?thesis by simp
qed

text \<open>
  C2. For every acyclic map the claim asks \<open>buildLeveledDAG\<close> to return without error.
  The map below is acyclic (\<open>b\<close> depends on \<open>a\<close>, \<open>a\<close> on nothing), and \<open>b\<close> lists \<open>a\<close>
  twice. The in-degree of \<open>b\<close> counts both occurrences, the dependents set of \<open>a\<close> holds
  \<open>b\<close> once, so the in-degree of \<open>b\<close> stops at 1 and the function reports a cycle.
\<close>

theorem buildLeveledDAG_duplicate_dependency:
  "buildLeveledDAG
     [(''a'', \<lparr>id_of = ''a'', dependencies = [], level = None, data = None :: unit option\<rparr>),
      (''b'', \<lparr>id_of = ''b'', dependencies = [''a'', ''a''], level = None, data = None\<rparr>)]
   = Inl (Error ''Circular dependency detected involving: b'')"
  by (simp add: kahn_eval)

subsection \<open>Cycles\<close>

text \<open>\<open>n\<close> depends on \<open>d\<close>, both keys of the map.\<close>

definition dep_rel :: "'d node_map \<Rightarrow> (string \<times> string) set" where
  "dep_rel m = {(n, d). has m n \<and> d \<in> in_deps m n}"

text \<open>The names that lie on a cycle or depend, directly or transitively, on a name that does.\<close>

definition blocked :: "'d node_map \<Rightarrow> string set" where
  "blocked m = {n. \<exists>c. (n, c) \<in> (dep_rel m)\<^sup>* \<and> (c, c) \<in> (dep_rel m)\<^sup>+}"

lemma dep_rel_keys: "dep_rel m \<subseteq> fst ` set m \<times> fst ` set m"
  by (auto simp: dep_rel_def in_deps_def has_iff)

lemma finite_dep_rel [simp]: "finite (dep_rel m)"
  by (rule finite_subset [OF dep_rel_keys]) simp

lemma reaches_cycle:
  assumes fin: "finite R"
    and succ: "\<And>x. x \<in> U \<Longrightarrow> \<exists>y \<in> U. (x, y) \<in> R"
    and n: "n \<in> U"
  shows "\<exists>c. (n, c) \<in> R\<^sup>* \<and> (c, c) \<in> R\<^sup>+"
proof (rule ccontr)
  assume no: "\<not> (\<exists>c. (n, c) \<in> R\<^sup>* \<and> (c, c) \<in> R\<^sup>+)"
  define S where "S = {y \<in> U. (n, y) \<in> R\<^sup>*}"
  define r where "r = {(x, y) \<in> R. x \<in> S}"
  have "r \<subseteq> R" by (auto simp: r_def)
  then have "finite r" using fin by (rule finite_subset)
  moreover have "acyclic r"
  proof (rule acyclicI, intro allI notI)
    fix c assume c: "(c, c) \<in> r\<^sup>+"
    then obtain z where "(c, z) \<in> r" by (auto dest: tranclD)
    then have "(n, c) \<in> R\<^sup>*" by (simp add: r_def S_def)
    moreover from c \<open>r \<subseteq> R\<close> have "(c, c) \<in> R\<^sup>+" by (auto dest: trancl_mono)
    ultimately show False using no by blast
  qed
  ultimately have "wf (r\<inverse>)" by (rule finite_acyclic_wf_converse)
  moreover have "n \<in> S" using n by (simp add: S_def)
  ultimately obtain z where z: "z \<in> S" "\<And>y. (y, z) \<in> r\<inverse> \<Longrightarrow> y \<notin> S"
    by (rule wfE_min) blast
  from z(1) have "z \<in> U" "(n, z) \<in> R\<^sup>*" by (simp_all add: S_def)
  from succ [OF this(1)] obtain y where y: "y \<in> U" "(z, y) \<in> R" by blast
  with \<open>(n, z) \<in> R\<^sup>*\<close> have "y \<in> S" by (auto simp: S_def)
  moreover from y(2) z(1) have "(y, z) \<in> r\<inverse>" by (simp add: r_def)
  ultimately show False using z(2) by blast
qed

text \<open>A processed name has only processed dependencies, each in a lower level.\<close>

lemma processed_closed:
  assumes d: "distinct (map fst m)"
    and n: "n \<in> set (concat (st_levels (final_state m)))"
    and r: "(n, x) \<in> dep_rel m"
  shows "x \<in> set (concat (st_levels (final_state m)))
       \<and> (\<exists>i j. st_nodeLevel (final_state m) n = Some i \<and> st_nodeLevel (final_state m) x = Some j
             \<and> j < i)"
proof -
  from n obtain i where i: "i < length (st_levels (final_state m))"
    "n \<in> set (st_levels (final_state m) ! i)"
    unfolding in_concat_nth by blast
  from r have "x \<in> in_deps m n" by (simp add: dep_rel_def)
  from final_facts(5) [OF d i this] obtain j where
    j: "j < i" "x \<in> set (st_levels (final_state m) ! j)" by blast
  with i(1) have jl: "j < length (st_levels (final_state m))" by simp
  with j(2) have "x \<in> set (concat (st_levels (final_state m)))"
    unfolding in_concat_nth by blast
  moreover have "st_nodeLevel (final_state m) n = Some i" "st_nodeLevel (final_state m) x = Some j"
    using i j(2) jl by (simp_all add: final_facts(4) [OF d])
  ultimately show ?thesis using j(1) by blast
qed

lemma processed_closed_trancl:
  assumes d: "distinct (map fst m)"
    and r: "(n, x) \<in> (dep_rel m)\<^sup>+"
    and n: "n \<in> set (concat (st_levels (final_state m)))"
  shows "x \<in> set (concat (st_levels (final_state m)))
       \<and> (\<exists>i j. st_nodeLevel (final_state m) n = Some i \<and> st_nodeLevel (final_state m) x = Some j
             \<and> j < i)"
  using r
proof (induction rule: trancl_induct)
  case (base y)
  then show ?case by (rule processed_closed [OF d n])
next
  case (step y z)
  from step.IH obtain i j where ij: "y \<in> set (concat (st_levels (final_state m)))"
    "st_nodeLevel (final_state m) n = Some i" "st_nodeLevel (final_state m) y = Some j" "j < i"
    by blast
  from processed_closed [OF d ij(1) step.hyps(2)] obtain k where
    "z \<in> set (concat (st_levels (final_state m)))"
    "st_nodeLevel (final_state m) z = Some k" "k < j"
    using ij(3) by auto
  with ij(2,4) show ?case by auto
qed

lemma cycle_not_processed:
  assumes "distinct (map fst m)" "(c, c) \<in> (dep_rel m)\<^sup>+"
  shows "c \<notin> set (concat (st_levels (final_state m)))"
proof
  assume "c \<in> set (concat (st_levels (final_state m)))"
  from processed_closed_trancl [OF assms this] show False by auto
qed

lemma blocked_not_processed:
  assumes d: "distinct (map fst m)" and b: "n \<in> blocked m"
  shows "n \<in> fst ` set m \<and> n \<notin> set (concat (st_levels (final_state m)))"
proof -
  from b obtain c where c: "(n, c) \<in> (dep_rel m)\<^sup>*" "(c, c) \<in> (dep_rel m)\<^sup>+"
    by (auto simp: blocked_def)
  from c(2) have cK: "c \<in> fst ` set m"
    using dep_rel_keys [of m] by (auto dest!: tranclD)
  from c(1) show ?thesis
  proof (induction rule: converse_rtrancl_induct)
    case base
    show ?case using cK cycle_not_processed [OF d c(2)] by simp
  next
    case (step y z)
    from step.hyps(1) have "y \<in> fst ` set m" using dep_rel_keys [of m] by auto
    moreover have "y \<notin> set (concat (st_levels (final_state m)))"
      using processed_closed [OF d _ step.hyps(1)] step.IH by blast
    ultimately show ?case by simp
  qed
qed

lemma unprocessed_blocked:
  assumes d: "distinct (map fst m)"
    and nodup: "\<And>n. distinct (filter (has m) (deps_of m n))"
    and n: "n \<in> fst ` set m" "n \<notin> set (concat (st_levels (final_state m)))"
  shows "n \<in> blocked m"
proof -
  let ?P = "set (concat (st_levels (final_state m)))"
  let ?U = "fst ` set m - ?P"
  have exact: "initDeg m x = int (card (in_deps m x))" for x
  proof -
    have "in_deps m x = set (filter (has m) (deps_of m x))" by (auto simp: in_deps_def)
    then show ?thesis by (simp only: initDeg_def distinct_card [OF nodup])
  qed
  have succ: "\<exists>y \<in> ?U. (x, y) \<in> dep_rel m" if "x \<in> ?U" for x
  proof -
    from that final_zero [OF d, of x]
    have "card (in_deps m x) \<noteq> card (in_deps m x \<inter> ?P)" by (simp add: exact)
    then have "in_deps m x \<inter> ?P \<noteq> in_deps m x" by metis
    then obtain y where y: "y \<in> in_deps m x" "y \<notin> ?P" by blast
    then have "y \<in> fst ` set m" by (simp add: in_deps_def has_iff)
    with y that show ?thesis by (auto simp: dep_rel_def has_iff)
  qed
  from n have "n \<in> ?U" by simp
  from reaches_cycle [OF finite_dep_rel succ this] show ?thesis
    by (simp add: blocked_def)
qed

lemma nodeLevel_None_iff:
  assumes "distinct (map fst m)"
  shows "st_nodeLevel (final_state m) n = None \<longleftrightarrow> n \<notin> set (concat (st_levels (final_state m)))"
proof -
  have "st_nodeLevel (final_state m) n \<noteq> None
          \<longleftrightarrow> (\<exists>i. i < length (st_levels (final_state m)) \<and> n \<in> set (st_levels (final_state m) ! i))"
    using final_facts(4) [OF assms, of n] by auto
  then show ?thesis unfolding in_concat_nth by blast
qed

text \<open>
  C3 (amended). When the map (distinct keys) contains a cycle, \<open>buildLeveledDAG\<close> fails
  with the cycle error. The identifiers it enumerates are in map iteration order; every
  identifier on a cycle, and every identifier that depends directly or transitively on
  one, is among them; and when no dependency list repeats a key of the map, these are
  exactly the identifiers enumerated.
\<close>

theorem buildLeveledDAG_cycle_error:
  assumes "distinct (map fst m)" and "(c, c) \<in> (dep_rel m)\<^sup>+"
  shows "\<exists>cycleNodes.
           buildLeveledDAG m
             = Inl (Error (''Circular dependency detected involving: '' @ join '', '' cycleNodes))
         \<and> cycleNodes = filter (\<lambda>n. n \<in> set cycleNodes) (map fst m)
         \<and> blocked m \<subseteq> set cycleNodes
         \<and> ((\<forall>n. distinct (filter (has m) (deps_of m n))) \<longrightarrow> set cycleNodes = blocked m)"
proof -
  let ?st = "final_state m"
  let ?P = "set (concat (st_levels ?st))"
  let ?L = "filter (\<lambda>n. st_nodeLevel ?st n = None) (map fst m)"
  note d = assms(1)
  have setL: "set ?L = fst ` set m - ?P"
    by (auto simp: nodeLevel_None_iff [OF d])
  have "c \<in> blocked m" using assms(2) by (auto simp: blocked_def)
  from blocked_not_processed [OF d this] have c: "c \<in> fst ` set m" "c \<notin> ?P" by simp_all
  with final_facts(2) [OF d] have "?P \<subset> fst ` set m" by blast
  then have "card ?P < card (fst ` set m)" by (intro psubset_card_mono) simp_all
  moreover have "card ?P = st_processedCount ?st"
    using distinct_card [OF final_facts(1) [OF d]] final_facts(3) [OF d] by simp
  moreover have "card (fst ` set m) = length m"
    using distinct_card [OF d] by simp
  ultimately have "st_processedCount ?st \<noteq> length m" by simp
  then have res: "buildLeveledDAG m
      = Inl (Error (''Circular dependency detected involving: '' @ join '', '' ?L))"
    by (simp add: buildLeveledDAG_final)
  have ord: "?L = filter (\<lambda>n. n \<in> set ?L) (map fst m)"
    by (rule sym, rule filter_cong) (auto simp: nodeLevel_None_iff [OF d])
  have sup: "blocked m \<subseteq> set ?L"
    unfolding setL using blocked_not_processed [OF d] by blast
  have exact: "set ?L = blocked m" if "\<forall>n. distinct (filter (has m) (deps_of m n))"
  proof
    show "blocked m \<subseteq> set ?L" by (rule sup)
    show "set ?L \<subseteq> blocked m"
      unfolding setL using unprocessed_blocked [OF d] that by blast
  qed
  from res ord sup exact show ?thesis by blast
qed

definition cyc_map :: "unit node_map" where
  "cyc_map =
     [(''a'', \<lparr>id_of = ''a'', dependencies = [''a''], level = None, data = None\<rparr>),
      (''b'', \<lparr>id_of = ''b'', dependencies = [''a''], level = None, data = None\<rparr>)]"

lemma dep_rel_cyc_map: "dep_rel cyc_map = {(''a'', ''a''), (''b'', ''a'')}"
  by (auto simp: dep_rel_def in_deps_def deps_of_def has_def cyc_map_def split: if_splits)

lemma cyc_map_cycle: "(''a'', ''a'') \<in> (dep_rel cyc_map)\<^sup>+"
  by (rule r_into_trancl) (simp add: dep_rel_cyc_map)

lemma cyc_map_no_repeat: "distinct (filter (has cyc_map) (deps_of cyc_map n))"
  by (simp add: deps_of_def has_def cyc_map_def)

theorem buildLeveledDAG_cycle_error_witness:
  "distinct (map fst cyc_map) \<and> (''a'', ''a'') \<in> (dep_rel cyc_map)\<^sup>+
   \<and> (\<exists>cycleNodes.
         buildLeveledDAG cyc_map
           = Inl (Error (''Circular dependency detected involving: '' @ join '', '' cycleNodes))
       \<and> cycleNodes = filter (\<lambda>n. n \<in> set cycleNodes) (map fst cyc_map)
       \<and> blocked cyc_map \<subseteq> set cycleNodes
       \<and> set cycleNodes = blocked cyc_map)"
proof -
  have d: "distinct (map fst cyc_map)" by (simp add: cyc_map_def)
  from buildLeveledDAG_cycle_error [OF d cyc_map_cycle] d cyc_map_cycle cyc_map_no_repeat
  show ?thesis by blast
qed

text \<open>
  C3 as stated fails: in the map \<open>cyc_map\<close>, \<open>a\<close> depends on itself and \<open>b\<close> depends on \<open>a\<close>.
  The identifier \<open>b\<close> does not lie on a cycle, and the error message enumerates it.
\<close>

theorem cycle_error_enumerates_dependents_counterexample:
  "(''a'', ''a'') \<in> (dep_rel cyc_map)\<^sup>+
   \<and> (''b'', ''b'') \<notin> (dep_rel cyc_map)\<^sup>+
   \<and> buildLeveledDAG cyc_map = Inl (Error ''Circular dependency detected involving: a, b'')"
proof (intro conjI)
  show "(''a'', ''a'') \<in> (dep_rel cyc_map)\<^sup>+"
    by (rule r_into_trancl) (simp add: dep_rel_cyc_map)
  show "(''b'', ''b'') \<notin> (dep_rel cyc_map)\<^sup>+"
  proof
    assume "(''b'', ''b'') \<in> (dep_rel cyc_map)\<^sup>+"
    then have "''b'' \<in> Range ((dep_rel cyc_map)\<^sup>+)" by blast
    then show False by (simp add: dep_rel_cyc_map)
  qed
  show "buildLeveledDAG cyc_map = Inl (Error ''Circular dependency detected involving: a, b'')"
    by (simp add: cyc_map_def kahn_eval)
qed

subsection \<open>Dependencies outside the map\<close>

text \<open>The same map with the dependencies that are not keys removed from every item.\<close>

definition drop_external :: "'d node_map \<Rightarrow> 'd node_map" where
  "drop_external m = map (\<lambda>(name, node). (name, node\<lparr>dependencies := depsInDag m node\<rparr>)) m"

text \<open>What a caller can observe of a result, apart from the dependency lists of the items.\<close>

definition leveling ::
  "dag_error + 'd DependencyDAG
     \<Rightarrow> dag_error + string list list \<times> string list \<times> string list \<times> (string \<times> nat option) list" where
  "leveling r =
     (case r of
        Inl e \<Rightarrow> Inl e
      | Inr dag \<Rightarrow> Inr (levels dag, roots dag, leaves dag,
                        map (\<lambda>(name, node). (name, level node)) (nodes dag)))"

definition retag :: "('d DAGNode \<Rightarrow> 'd DAGNode) \<Rightarrow> 'd kahn_state \<Rightarrow> 'd kahn_state" where
  "retag g st = st\<lparr>st_nodes := map (\<lambda>(name, node). (name, g node)) (st_nodes st)\<rparr>"

lemma keys_drop_external [simp]: "map fst (drop_external m) = map fst m"
  by (simp add: drop_external_def case_prod_unfold comp_def)

lemma has_drop_external [simp]: "has (drop_external m) = has m"
proof
  fix k
  have "fst ` set (drop_external m) = fst ` set m"
    using keys_drop_external [of m] by (metis list.set_map)
  then show "has (drop_external m) k = has m k" by (simp add: has_iff)
qed

lemma depsInDag_drop_external:
  "depsInDag (drop_external m) (node\<lparr>dependencies := depsInDag m node\<rparr>) = depsInDag m node"
  by (simp add: depsInDag_def)

lemma init_inDegree_drop_external: "init_inDegree (drop_external m) = init_inDegree m"
proof -
  have "fold (\<lambda>(name, node). AList.update name (int (length (depsInDag (drop_external m) node))))
          (map (\<lambda>(name, node). (name, node\<lparr>dependencies := depsInDag m node\<rparr>)) es) acc
        = fold (\<lambda>(name, node). AList.update name (int (length (depsInDag m node)))) es acc"
    for es :: "'a node_map" and acc
    by (induction es arbitrary: acc) (auto simp: depsInDag_drop_external)
  from this [of m "[]"] show ?thesis
    unfolding init_inDegree_def drop_external_def [symmetric] .
qed

lemma init_dependents_drop_external: "init_dependents (drop_external m) = init_dependents m"
proof -
  have "fst ` set (drop_external m) = fst ` set m"
    using keys_drop_external [of m] by (metis list.set_map)
  then show ?thesis by (simp add: init_dependents_eq)
qed

lemma fold_add_dependent_filter:
  assumes "\<And>n. \<not> has m n \<Longrightarrow> D n = None"
  shows "fold (add_dependent name) (filter (has m) ds) D = fold (add_dependent name) ds D"
  using assms by (auto simp: fold_add_dependent_eq fun_eq_iff)

lemma fold_add_dependent_None:
  "D n = None \<Longrightarrow> fold (add_dependent name) ds D n = None"
  by (simp add: fold_add_dependent_eq)

lemma build_dependents_drop_external: "build_dependents (drop_external m) = build_dependents m"
proof -
  have "fold (\<lambda>(name, node). fold (add_dependent name) (dependencies node))
          (map (\<lambda>(name, node). (name, node\<lparr>dependencies := depsInDag m node\<rparr>)) es) D
        = fold (\<lambda>(name, node). fold (add_dependent name) (dependencies node)) es D"
    if "\<And>n. \<not> has m n \<Longrightarrow> D n = None" for es :: "'a node_map" and D
    using that
  proof (induction es arbitrary: D)
    case Nil
    show ?case by simp
  next
    case (Cons e es)
    obtain name node where e: "e = (name, node)" by (cases e)
    let ?D1 = "fold (add_dependent name) (dependencies node) D"
    have eq: "fold (add_dependent name) (depsInDag m node) D = ?D1"
      unfolding depsInDag_def using Cons.prems by (rule fold_add_dependent_filter)
    have "\<And>n. \<not> has m n \<Longrightarrow> ?D1 n = None"
      using Cons.prems by (simp add: fold_add_dependent_None)
    from Cons.IH [OF this] show ?case by (simp add: e eq)
  qed
  moreover have "\<not> has m n \<Longrightarrow> init_dependents m n = None" for n
    by (simp add: init_dependents_eq has_iff)
  ultimately show ?thesis
    unfolding build_dependents_def init_dependents_drop_external
    by (simp add: drop_external_def [of m])
qed

text \<open>The loop reads the names only: relabelling the items commutes with it.\<close>

lemma decrement_retag: "decrement d (retag g st) = retag g (decrement d st)"
  by (simp add: decrement_def retag_def Let_def split: option.splits)

lemma fold_decrement_retag: "fold decrement ds (retag g st) = retag g (fold decrement ds st)"
  by (induction ds arbitrary: st) (simp_all add: decrement_retag)

lemma map_entry_map:
  "(\<And>v. f (g v) = g (f v)) \<Longrightarrow>
     AList.map_entry k f (map (\<lambda>(name, node). (name, g node)) al)
       = map (\<lambda>(name, node). (name, g node)) (AList.map_entry k f al)"
  by (induction al) auto

lemma process_node_retag:
  assumes "\<And>node l. g (node\<lparr>level := l\<rparr>) = (g node)\<lparr>level := l\<rparr>"
  shows "process_node D l n (retag g st) = retag g (process_node D l n st)"
proof -
  have "AList.map_entry n (\<lambda>node. node\<lparr>level := Some l\<rparr>) (map (\<lambda>(name, node). (name, g node)) al)
          = map (\<lambda>(name, node). (name, g node)) (AList.map_entry n (\<lambda>node. node\<lparr>level := Some l\<rparr>) al)"
    for al
    by (rule map_entry_map) (simp add: assms)
  then have "(retag g st)\<lparr>st_nodes := AList.map_entry n (\<lambda>node. node\<lparr>level := Some l\<rparr>)
                                         (st_nodes (retag g st)),
               st_nodeLevel := (st_nodeLevel (retag g st))(n \<mapsto> l),
               levelNodes := levelNodes (retag g st) @ [n],
               st_processedCount := st_processedCount (retag g st) + 1\<rparr>
           = retag g (st\<lparr>st_nodes := AList.map_entry n (\<lambda>node. node\<lparr>level := Some l\<rparr>) (st_nodes st),
               st_nodeLevel := (st_nodeLevel st)(n \<mapsto> l),
               levelNodes := levelNodes st @ [n],
               st_processedCount := st_processedCount st + 1\<rparr>)"
    by (simp add: retag_def)
  then show ?thesis
    unfolding process_node_def by (simp only: fold_decrement_retag)
qed

lemma fold_process_node_retag:
  assumes "\<And>node l. g (node\<lparr>level := l\<rparr>) = (g node)\<lparr>level := l\<rparr>"
  shows "fold (process_node D l) q (retag g st) = retag g (fold (process_node D l) q st)"
  by (induction q arbitrary: st) (simp_all add: process_node_retag [OF assms])

lemma process_level_retag:
  assumes "\<And>node l. g (node\<lparr>level := l\<rparr>) = (g node)\<lparr>level := l\<rparr>"
  shows "process_level D (retag g st) = retag g (process_level D st)"
proof -
  have "(retag g st)\<lparr>levelNodes := [], nextQueue := []\<rparr> = retag g (st\<lparr>levelNodes := [], nextQueue := []\<rparr>)"
    by (simp add: retag_def)
  moreover have "st_levels (retag g st) = st_levels st" "st_queue (retag g st) = st_queue st"
    by (simp_all add: retag_def)
  ultimately show ?thesis
    unfolding process_level_def Let_def
    by (simp add: fold_process_node_retag [OF assms]) (simp add: retag_def)
qed

lemma kahn_loop_retag:
  assumes "\<And>node l. g (node\<lparr>level := l\<rparr>) = (g node)\<lparr>level := l\<rparr>"
  shows "kahn_loop D (retag g st) = retag g (kahn_loop D st)"
proof (induction D st rule: kahn_loop.induct)
  case (1 D st)
  have q: "st_queue (retag g st) = st_queue st" by (simp add: retag_def)
  show ?case
  proof (cases "st_queue st = []")
    case True
    then show ?thesis by (simp add: kahn_loop.simps [of D st] kahn_loop.simps [of D "retag g st"] q)
  next
    case False
    from "1.IH" [OF False] show ?thesis
      using False
      by (simp add: kahn_loop.simps [of D st] kahn_loop.simps [of D "retag g st"] q
            process_level_retag [OF assms])
  qed
qed

lemma final_state_drop_external:
  "final_state (drop_external m)
     = retag (\<lambda>node. node\<lparr>dependencies := depsInDag m node\<rparr>) (final_state m)"
proof -
  have "\<lparr>st_nodes = drop_external m, st_inDegree = init_inDegree m,
         st_queue = init_queue (init_inDegree m),
         st_levels = [], st_nodeLevel = Map.empty, st_processedCount = 0,
         levelNodes = [], nextQueue = []\<rparr>
        = retag (\<lambda>node. node\<lparr>dependencies := depsInDag m node\<rparr>)
            \<lparr>st_nodes = m, st_inDegree = init_inDegree m,
             st_queue = init_queue (init_inDegree m),
             st_levels = [], st_nodeLevel = Map.empty, st_processedCount = 0,
             levelNodes = [], nextQueue = []\<rparr>"
    by (simp add: retag_def drop_external_def)
  moreover have "(node\<lparr>level := l\<rparr>)\<lparr>dependencies := depsInDag m (node\<lparr>level := l\<rparr>)\<rparr>
                   = (node\<lparr>dependencies := depsInDag m node\<rparr>)\<lparr>level := l\<rparr>"
    for node :: "'a DAGNode" and l
    by (simp add: depsInDag_def)
  ultimately show ?thesis
    unfolding final_state_def init_inDegree_drop_external build_dependents_drop_external
    by (simp only: kahn_loop_retag)
qed

lemma has_cong_keys: "map fst al = map fst bl \<Longrightarrow> has al = has bl"
proof
  fix k assume "map fst al = map fst bl"
  then have "fst ` set al = fst ` set bl" by (metis list.set_map)
  then show "has al k = has bl k" by (simp add: has_iff)
qed

lemma map_of_retagged:
  "map_of (map (\<lambda>(name, node). (name, g node)) al) k = map_option g (map_of al k)"
  by (induction al) auto

lemma leveling_drop_external:
  assumes d: "distinct (map fst m)"
  shows "leveling (buildLeveledDAG (drop_external m)) = leveling (buildLeveledDAG m)"
proof -
  let ?g = "\<lambda>node :: 'a DAGNode. node\<lparr>dependencies := depsInDag m node\<rparr>"
  let ?st = "final_state m"
  let ?nodes' = "map (\<lambda>(name, node). (name, ?g node)) (st_nodes ?st)"
  have fs: "final_state (drop_external m) = retag ?g ?st"
    by (rule final_state_drop_external)
  have same: "st_processedCount (retag ?g ?st) = st_processedCount ?st"
    "st_nodeLevel (retag ?g ?st) = st_nodeLevel ?st"
    "st_levels (retag ?g ?st) = st_levels ?st"
    "st_nodes (retag ?g ?st) = ?nodes'"
    by (simp_all add: retag_def)
  have hs: "has (st_nodes ?st) = has m"
    by (rule has_cong_keys) (rule final_facts(6) [OF d])
  have hs': "has ?nodes' = has m"
    unfolding hs [symmetric] by (rule has_cong_keys) (simp add: case_prod_unfold comp_def)
  have leaf: "(case map_of ?nodes' name of None \<Rightarrow> False
                | Some node \<Rightarrow> depsInDag ?nodes' node = [])
            = (case map_of (st_nodes ?st) name of None \<Rightarrow> False
                | Some node \<Rightarrow> depsInDag (st_nodes ?st) node = [])" for name
  proof -
    have "depsInDag ?nodes' (?g node) = filter (has ?nodes') (depsInDag m node)" for node
      by (simp add: depsInDag_def [of ?nodes'])
    also have "\<dots> node = filter (has m) (depsInDag m node)" for node
      by (simp only: hs')
    also have "\<dots> node = depsInDag m node" for node
      by (simp add: depsInDag_def)
    finally have a: "depsInDag ?nodes' (?g node) = depsInDag m node" for node .
    have b: "depsInDag (st_nodes ?st) node = depsInDag m node" for node
      by (simp add: depsInDag_def hs)
    show ?thesis
      by (cases "map_of (st_nodes ?st) name") (simp_all only: map_of_retagged a b option.simps)
  qed
  have len: "length (drop_external m) = length m"
    by (simp add: drop_external_def)
  show ?thesis
    unfolding buildLeveledDAG_final [of m] buildLeveledDAG_final [of "drop_external m"]
      fs same build_dependents_drop_external len leaf keys_drop_external
    by (auto simp: leveling_def)
qed

text \<open>
  C7. Dependency identifiers that are not keys of the map (distinct keys) have no effect
  on \<open>buildLeveledDAG\<close>: the in-degree of an item counts its in-map dependencies only, no
  dependents set is kept for them, in-degrees and dependents sets are those of the map
  with these dependencies removed, and so is the outcome (the error, or the levels, the
  roots, the leaves and the level written into every item); and no such identifier occurs
  in the roots, the leaves or a level.
\<close>

theorem external_dependencies_ignored:
  assumes "distinct (map fst m)"
  shows "(\<forall>n. has m n \<longrightarrow>
            map_of (init_inDegree m) n = Some (int (length (filter (has m) (deps_of m n)))))
       \<and> (\<forall>d. \<not> has m d \<longrightarrow> build_dependents m d = None)
       \<and> init_inDegree (drop_external m) = init_inDegree m
       \<and> build_dependents (drop_external m) = build_dependents m
       \<and> leveling (buildLeveledDAG (drop_external m)) = leveling (buildLeveledDAG m)
       \<and> (\<forall>dag d. buildLeveledDAG m = Inr dag \<and> \<not> has m d \<longrightarrow>
            d \<notin> set (roots dag) \<and> d \<notin> set (leaves dag) \<and> d \<notin> set (concat (levels dag)))"
proof (intro conjI allI impI)
  fix n assume "has m n"
  then show "map_of (init_inDegree m) n = Some (int (length (filter (has m) (deps_of m n))))"
    by (simp add: map_of_init_inDegree [OF assms] initDeg_def)
next
  fix d assume "\<not> has m d"
  with build_dependents_ok [OF assms] show "build_dependents m d = None"
    unfolding dependents_ok_def has_iff by metis
next
  show "init_inDegree (drop_external m) = init_inDegree m"
    by (rule init_inDegree_drop_external)
  show "build_dependents (drop_external m) = build_dependents m"
    by (rule build_dependents_drop_external)
  show "leveling (buildLeveledDAG (drop_external m)) = leveling (buildLeveledDAG m)"
    by (rule leveling_drop_external [OF assms])
next
  fix dag d assume a: "buildLeveledDAG m = Inr dag \<and> \<not> has m d"
  then have dK: "d \<notin> fst ` set m" by (simp add: has_iff)
  from a have r: "roots dag = filter (\<lambda>name. case build_dependents m name of
                                           None \<Rightarrow> True | Some deps \<Rightarrow> deps = []) (map fst m)"
    and l: "leaves dag = filter (\<lambda>name. case map_of (st_nodes (final_state m)) name of
                                            None \<Rightarrow> False
                                          | Some node \<Rightarrow> depsInDag (st_nodes (final_state m)) node = [])
                          (map fst m)"
    and lv: "levels dag = st_levels (final_state m)"
    by (auto simp: buildLeveledDAG_final split: if_splits)
  show "d \<notin> set (roots dag)" unfolding r using dK by auto
  show "d \<notin> set (leaves dag)" unfolding l using dK by auto
  show "d \<notin> set (concat (levels dag))"
    unfolding lv using final_facts(2) [OF assms] dK by blast
qed

theorem external_dependencies_ignored_witness:
  "distinct (map fst wit_map)
   \<and> init_inDegree (drop_external wit_map) = init_inDegree wit_map
   \<and> build_dependents (drop_external wit_map) = build_dependents wit_map
   \<and> leveling (buildLeveledDAG (drop_external wit_map)) = leveling (buildLeveledDAG wit_map)"
proof -
  have d: "distinct (map fst wit_map)" by (simp add: wit_map_def)
  from external_dependencies_ignored [OF d] d show ?thesis by simp
qed

section \<open>Ancestors and descendants (builder.ts)\<close>

text \<open>
  \<open>getAncestors\<close> and \<open>getDescendants\<close> each declare a recursive closure \<open>visit\<close> over two
  sets, the result and \<open>visited\<close>. The recursion is not structural, so the model counts
  the nesting depth down from a bound (\<open>fuel\<close>) and returns \<open>None\<close> when the bound is too
  small; the bound the entry points pass is shown to suffice.
\<close>

record walk =
  found :: "string list"
  visited :: "string list"

fun visit_ancestors :: "nat \<Rightarrow> 'd node_map \<Rightarrow> string \<Rightarrow> walk \<Rightarrow> walk option"
  and visit_dependencies :: "nat \<Rightarrow> 'd node_map \<Rightarrow> string list \<Rightarrow> walk \<Rightarrow> walk option"
where
  "visit_ancestors 0 m n w = None"
| "visit_ancestors (Suc fuel) m n w =
     (if n \<in> set (visited w) then Some w
      else (let w' = w\<lparr>visited := set_add n (visited w)\<rparr>
            in case map_of m n of
                 None \<Rightarrow> Some w'
               | Some node \<Rightarrow> visit_dependencies fuel m (dependencies node) w'))"
| "visit_dependencies fuel m [] w = Some w"
| "visit_dependencies fuel m (dep # deps) w =
     (if has m dep
      then (case visit_ancestors fuel m dep (w\<lparr>found := set_add dep (found w)\<rparr>) of
              None \<Rightarrow> None
            | Some w' \<Rightarrow> visit_dependencies fuel m deps w')
      else visit_dependencies fuel m deps w)"

definition getAncestors :: "'d node_map \<Rightarrow> string \<Rightarrow> string list option" where
  "getAncestors m ident =
     map_option found (visit_ancestors (Suc (length m)) m ident \<lparr>found = [], visited = []\<rparr>)"

text \<open>The reverse dependency map of \<open>getDescendants\<close>: a set is created on first use.\<close>

definition add_reverse :: "string \<Rightarrow> string \<Rightarrow> (string \<rightharpoonup> string list) \<Rightarrow> (string \<rightharpoonup> string list)" where
  "add_reverse nodeId dep dependents =
     (let dependents' = (if dependents dep = None then dependents(dep \<mapsto> []) else dependents)
      in dependents'(dep \<mapsto> set_add nodeId (case dependents' dep of None \<Rightarrow> [] | Some s \<Rightarrow> s)))"

definition reverse_map :: "'d node_map \<Rightarrow> (string \<rightharpoonup> string list)" where
  "reverse_map m =
     fold (\<lambda>(nodeId, node) dependents. fold (add_reverse nodeId) (dependencies node) dependents)
       m Map.empty"

fun visit_descendants :: "nat \<Rightarrow> (string \<rightharpoonup> string list) \<Rightarrow> string \<Rightarrow> walk \<Rightarrow> walk option"
  and visit_dependents :: "nat \<Rightarrow> (string \<rightharpoonup> string list) \<Rightarrow> string list \<Rightarrow> walk \<Rightarrow> walk option"
where
  "visit_descendants 0 dependents n w = None"
| "visit_descendants (Suc fuel) dependents n w =
     (if n \<in> set (visited w) then Some w
      else (let w' = w\<lparr>visited := set_add n (visited w)\<rparr>
            in case dependents n of
                 None \<Rightarrow> Some w'
               | Some deps \<Rightarrow> visit_dependents fuel dependents deps w'))"
| "visit_dependents fuel dependents [] w = Some w"
| "visit_dependents fuel dependents (dep # deps) w =
     (case visit_descendants fuel dependents dep (w\<lparr>found := set_add dep (found w)\<rparr>) of
        None \<Rightarrow> None
      | Some w' \<Rightarrow> visit_dependents fuel dependents deps w')"

definition getDescendants :: "'d node_map \<Rightarrow> string \<Rightarrow> string list option" where
  "getDescendants m ident =
     map_option found
       (visit_descendants (Suc (Suc (length m))) (reverse_map m) ident \<lparr>found = [], visited = []\<rparr>)"

subsection \<open>The bound on the nesting depth suffices\<close>

lemma card_unvisited_less:
  assumes "finite V" "n \<in> V" "n \<notin> set vis" "card (V - set vis) < Suc fuel"
  shows "card (V - set (set_add n vis)) < fuel"
proof -
  have "V - set (set_add n vis) = (V - set vis) - {n}" by auto
  moreover have "n \<in> V - set vis" using assms by simp
  moreover have "finite (V - set vis)" using assms(1) by simp
  ultimately have "card (V - set (set_add n vis)) = card (V - set vis) - 1"
    by (simp add: card_Diff_singleton)
  moreover have "0 < card (V - set vis)"
    using \<open>n \<in> V - set vis\<close> \<open>finite (V - set vis)\<close> by (auto simp: card_gt_0_iff)
  ultimately show ?thesis using assms(4) by simp
qed

lemma card_unvisited_mono:
  "finite V \<Longrightarrow> set vis \<subseteq> set vis' \<Longrightarrow> card (V - set vis') \<le> card (V - set vis)"
  by (intro card_mono) auto

lemma visit_ancestors_fuel:
  "card (fst ` set m - set (visited w)) < fuel \<Longrightarrow>
     \<exists>w'. visit_ancestors fuel m n w = Some w' \<and> set (visited w) \<subseteq> set (visited w')"
  "card (fst ` set m - set (visited w)) < fuel \<Longrightarrow>
     \<exists>w'. visit_dependencies fuel m deps w = Some w' \<and> set (visited w) \<subseteq> set (visited w')"
proof (induction fuel m n w and fuel m deps w rule: visit_ancestors_visit_dependencies.induct)
  case (1 m n w)
  then show ?case by simp
next
  case (2 fuel m n w)
  show ?case
  proof (cases "n \<in> set (visited w)")
    case True
    then show ?thesis by simp
  next
    case False
    let ?w' = "w\<lparr>visited := set_add n (visited w)\<rparr>"
    show ?thesis
    proof (cases "map_of m n")
      case None
      with False show ?thesis by auto
    next
      case (Some node)
      then have "n \<in> fst ` set m" by (metis map_of_eq_None_iff option.distinct(1))
      from card_unvisited_less [OF _ this False "2.prems"]
      have "card (fst ` set m - set (visited ?w')) < fuel" by simp
      from "2.IH" [OF False refl Some this] obtain w'' where
        "visit_dependencies fuel m (dependencies node) ?w' = Some w''"
        "set (visited ?w') \<subseteq> set (visited w'')" by blast
      with False Some show ?thesis by auto
    qed
  qed
next
  case (3 fuel m w)
  then show ?case by simp
next
  case (4 fuel m dep deps w)
  show ?case
  proof (cases "has m dep")
    case True
    let ?w1 = "w\<lparr>found := set_add dep (found w)\<rparr>"
    from "4.prems" have "card (fst ` set m - set (visited ?w1)) < fuel" by simp
    from "4.IH"(1) [OF True this] obtain w' where
      w': "visit_ancestors fuel m dep ?w1 = Some w'" "set (visited ?w1) \<subseteq> set (visited w')"
      by blast
    have "card (fst ` set m - set (visited w')) \<le> card (fst ` set m - set (visited ?w1))"
      by (rule card_unvisited_mono [OF _ w'(2)]) simp
    with "4.prems" have "card (fst ` set m - set (visited w')) < fuel" by simp
    from "4.IH"(2) [OF True w'(1) this] obtain w'' where
      "visit_dependencies fuel m deps w' = Some w''" "set (visited w') \<subseteq> set (visited w'')"
      by blast
    with True w' show ?thesis by auto
  next
    case False
    from "4.IH"(3) [OF False "4.prems"] False show ?thesis by simp
  qed
qed

lemma getAncestors_returns: "\<exists>anc. getAncestors m ident = Some anc"
proof -
  have "card (fst ` set m) \<le> length m"
    by (metis card_length length_map list.set_map)
  then have "card (fst ` set m - set (visited \<lparr>found = [], visited = []\<rparr>)) < Suc (length m)"
    by simp
  from visit_ancestors_fuel(1) [OF this] show ?thesis
    unfolding getAncestors_def by fastforce
qed

subsection \<open>What the traversals find\<close>

lemma visit_ancestors_sound:
  "visit_ancestors fuel m n w = Some w' \<Longrightarrow>
     set (found w') \<subseteq> set (found w) \<union> {d. (n, d) \<in> (dep_rel m)\<^sup>+}"
  "visit_dependencies fuel m deps w = Some w' \<Longrightarrow>
     (\<forall>n0. has m n0 \<and> set deps \<subseteq> set (deps_of m n0) \<longrightarrow>
        set (found w') \<subseteq> set (found w) \<union> {d. (n0, d) \<in> (dep_rel m)\<^sup>+})"
proof (induction fuel m n w and fuel m deps w arbitrary: w' and w'
       rule: visit_ancestors_visit_dependencies.induct)
  case (1 m n w)
  then show ?case by simp
next
  case (2 fuel m n w)
  show ?case
  proof (cases "n \<in> set (visited w)")
    case True
    with "2.prems" show ?thesis by auto
  next
    case False
    let ?w1 = "w\<lparr>visited := set_add n (visited w)\<rparr>"
    show ?thesis
    proof (cases "map_of m n")
      case None
      with False "2.prems" show ?thesis by auto
    next
      case (Some node)
      with False "2.prems" have run: "visit_dependencies fuel m (dependencies node) ?w1 = Some w'"
        by simp
      have "has m n" "set (dependencies node) \<subseteq> set (deps_of m n)"
        using Some by (simp_all add: has_def deps_of_def)
      with "2.IH" [OF False refl Some run] show ?thesis by auto
    qed
  qed
next
  case (3 fuel m w)
  then show ?case by simp
next
  case (4 fuel m dep deps w)
  show ?case
  proof (intro allI impI)
    fix n0 assume n0: "has m n0 \<and> set (dep # deps) \<subseteq> set (deps_of m n0)"
    show "set (found w') \<subseteq> set (found w) \<union> {d. (n0, d) \<in> (dep_rel m)\<^sup>+}"
    proof (cases "has m dep")
      case True
      let ?w1 = "w\<lparr>found := set_add dep (found w)\<rparr>"
      from True "4.prems" obtain w1 where
        w1: "visit_ancestors fuel m dep ?w1 = Some w1" "visit_dependencies fuel m deps w1 = Some w'"
        by (auto split: option.splits)
      from n0 True have edge: "(n0, dep) \<in> dep_rel m"
        by (simp add: dep_rel_def in_deps_def)
      from "4.IH"(1) [OF True w1(1)]
      have "set (found w1) \<subseteq> insert dep (set (found w)) \<union> {d. (dep, d) \<in> (dep_rel m)\<^sup>+}"
        by simp
      with edge have "set (found w1) \<subseteq> set (found w) \<union> {d. (n0, d) \<in> (dep_rel m)\<^sup>+}"
        by (auto intro: trancl_into_trancl2)
      moreover from "4.IH"(2) [OF True w1] n0
      have "set (found w') \<subseteq> set (found w1) \<union> {d. (n0, d) \<in> (dep_rel m)\<^sup>+}" by simp
      ultimately show ?thesis by blast
    next
      case False
      with "4.prems" have "visit_dependencies fuel m deps w = Some w'" by simp
      from "4.IH"(3) [OF False this] n0 show ?thesis by simp
    qed
  qed
qed

lemma getAncestors_sound:
  "getAncestors m ident = Some anc \<Longrightarrow> set anc \<subseteq> {d. (ident, d) \<in> (dep_rel m)\<^sup>+}"
  unfolding getAncestors_def using visit_ancestors_sound(1) [of "Suc (length m)" m ident]
  by fastforce

subsection \<open>The reverse dependency map\<close>

text \<open>\<open>n\<close> declares \<open>d\<close> as a dependency, whether \<open>d\<close> is a key or not.\<close>

definition decl_rel :: "'d node_map \<Rightarrow> (string \<times> string) set" where
  "decl_rel m = {(n, d). has m n \<and> d \<in> set (deps_of m n)}"

definition members :: "(string \<rightharpoonup> string list) \<Rightarrow> string \<Rightarrow> string set" where
  "members D n = (case D n of None \<Rightarrow> {} | Some s \<Rightarrow> set s)"

lemma members_add_reverse:
  "members (add_reverse x dep D) n = members D n \<union> (if n = dep then {x} else {})"
  by (auto simp: members_def add_reverse_def Let_def split: option.splits)

lemma members_fold_add_reverse:
  "members (fold (add_reverse x) ds D) n = members D n \<union> (if n \<in> set ds then {x} else {})"
  by (induction ds arbitrary: D) (auto simp: members_add_reverse)

lemma members_fold_entries:
  "members (fold (\<lambda>(nodeId, node) dependents.
                    fold (add_reverse nodeId) (dependencies node) dependents) es D) n
     = members D n \<union> {x. \<exists>node. (x, node) \<in> set es \<and> n \<in> set (dependencies node)}"
proof (induction es arbitrary: D)
  case Nil
  show ?case by simp
next
  case (Cons e es)
  obtain x node where e: "e = (x, node)" by (cases e)
  show ?case
    unfolding e by (auto simp: Cons.IH members_fold_add_reverse)
qed

lemma members_reverse_map:
  assumes "distinct (map fst m)"
  shows "members (reverse_map m) n = {x. (x, n) \<in> decl_rel m}"
proof -
  have "{x. \<exists>node. (x, node) \<in> set m \<and> n \<in> set (dependencies node)} = {x. (x, n) \<in> decl_rel m}"
    using assms by (force simp: decl_rel_def deps_of_def has_def split: option.splits)
  then show ?thesis
    unfolding reverse_map_def members_fold_entries by (simp add: members_def)
qed

lemma decl_rel_keys: "(x, n) \<in> decl_rel m \<Longrightarrow> x \<in> fst ` set m"
  by (simp add: decl_rel_def has_iff)

subsection \<open>Descendants\<close>

lemma visit_descendants_fuel:
  "finite V \<Longrightarrow> (\<forall>k. members D k \<subseteq> V) \<Longrightarrow> n \<in> V \<Longrightarrow> card (V - set (visited w)) < fuel \<Longrightarrow>
     \<exists>w'. visit_descendants fuel D n w = Some w' \<and> set (visited w) \<subseteq> set (visited w')"
  "finite V \<Longrightarrow> (\<forall>k. members D k \<subseteq> V) \<Longrightarrow> set deps \<subseteq> V \<Longrightarrow> card (V - set (visited w)) < fuel \<Longrightarrow>
     \<exists>w'. visit_dependents fuel D deps w = Some w' \<and> set (visited w) \<subseteq> set (visited w')"
proof (induction fuel D n w and fuel D deps w rule: visit_descendants_visit_dependents.induct)
  case (1 D n w)
  then show ?case by simp
next
  case (2 fuel D n w)
  show ?case
  proof (cases "n \<in> set (visited w)")
    case True
    then show ?thesis by simp
  next
    case False
    let ?w' = "w\<lparr>visited := set_add n (visited w)\<rparr>"
    show ?thesis
    proof (cases "D n")
      case None
      with False show ?thesis by auto
    next
      case (Some deps)
      from "2.prems"(2) Some have sub: "set deps \<subseteq> V"
        by (auto simp: members_def split: option.splits dest!: spec [of _ n])
      from card_unvisited_less [OF "2.prems"(1,3) False "2.prems"(4)]
      have "card (V - set (visited ?w')) < fuel" by simp
      from "2.IH" [OF False refl Some "2.prems"(1,2) sub this] obtain w'' where
        "visit_dependents fuel D deps ?w' = Some w''"
        "set (visited ?w') \<subseteq> set (visited w'')" by blast
      with False Some show ?thesis by auto
    qed
  qed
next
  case (3 fuel D w)
  then show ?case by simp
next
  case (4 fuel D dep deps w)
  let ?w1 = "w\<lparr>found := set_add dep (found w)\<rparr>"
  from "4.prems" have dep: "dep \<in> V" and deps: "set deps \<subseteq> V"
    and c: "card (V - set (visited ?w1)) < fuel" by simp_all
  from "4.IH"(1) [OF "4.prems"(1,2) dep c] obtain w' where
    w': "visit_descendants fuel D dep ?w1 = Some w'" "set (visited ?w1) \<subseteq> set (visited w')"
    by blast
  have "card (V - set (visited w')) \<le> card (V - set (visited ?w1))"
    by (rule card_unvisited_mono [OF "4.prems"(1) w'(2)])
  with c have "card (V - set (visited w')) < fuel" by simp
  from "4.IH"(2) [OF w'(1) "4.prems"(1,2) deps this] obtain w'' where
    "visit_dependents fuel D deps w' = Some w''" "set (visited w') \<subseteq> set (visited w'')"
    by blast
  with w' show ?case by auto
qed

lemma getDescendants_returns:
  assumes "distinct (map fst m)"
  shows "\<exists>desc. getDescendants m ident = Some desc"
proof -
  let ?V = "insert ident (fst ` set m)"
  have "card (fst ` set m) \<le> length m"
    by (metis card_length length_map list.set_map)
  then have "card ?V \<le> Suc (length m)"
    by (simp add: card_insert_if)
  then have c: "card (?V - set (visited \<lparr>found = [], visited = []\<rparr>)) < Suc (Suc (length m))"
    by simp
  have sub: "\<forall>k. members (reverse_map m) k \<subseteq> ?V"
    using members_reverse_map [OF assms] decl_rel_keys [of _ _ m] by auto
  from visit_descendants_fuel(1) [OF _ sub _ c] show ?thesis
    unfolding getDescendants_def by fastforce
qed

lemma visit_descendants_sound:
  "visit_descendants fuel D n w = Some w' \<Longrightarrow>
     set (found w') \<subseteq> set (found w) \<union> {d. (n, d) \<in> {(a, b). b \<in> members D a}\<^sup>+}"
  "visit_dependents fuel D deps w = Some w' \<Longrightarrow>
     (\<forall>n0. set deps \<subseteq> members D n0 \<longrightarrow>
        set (found w') \<subseteq> set (found w) \<union> {d. (n0, d) \<in> {(a, b). b \<in> members D a}\<^sup>+})"
proof (induction fuel D n w and fuel D deps w arbitrary: w' and w'
       rule: visit_descendants_visit_dependents.induct)
  case (1 D n w)
  then show ?case by simp
next
  case (2 fuel D n w)
  show ?case
  proof (cases "n \<in> set (visited w)")
    case True
    with "2.prems" show ?thesis by auto
  next
    case False
    let ?w1 = "w\<lparr>visited := set_add n (visited w)\<rparr>"
    show ?thesis
    proof (cases "D n")
      case None
      with False "2.prems" show ?thesis by auto
    next
      case (Some deps)
      with False "2.prems" have run: "visit_dependents fuel D deps ?w1 = Some w'"
        by simp
      have "set deps \<subseteq> members D n" using Some by (simp add: members_def)
      with "2.IH" [OF False refl Some run] show ?thesis by auto
    qed
  qed
next
  case (3 fuel D w)
  then show ?case by simp
next
  case (4 fuel D dep deps w)
  let ?S = "{(a, b). b \<in> members D a}"
  show ?case
  proof (intro allI impI)
    fix n0 assume n0: "set (dep # deps) \<subseteq> members D n0"
    let ?w1 = "w\<lparr>found := set_add dep (found w)\<rparr>"
    from "4.prems" obtain w1 where
      w1: "visit_descendants fuel D dep ?w1 = Some w1" "visit_dependents fuel D deps w1 = Some w'"
      by (auto split: option.splits)
    from n0 have edge: "(n0, dep) \<in> ?S" by simp
    from "4.IH"(1) [OF w1(1)]
    have "set (found w1) \<subseteq> insert dep (set (found w)) \<union> {d. (dep, d) \<in> ?S\<^sup>+}"
      by simp
    with edge have "set (found w1) \<subseteq> set (found w) \<union> {d. (n0, d) \<in> ?S\<^sup>+}"
      by (auto intro: trancl_into_trancl2)
    moreover from "4.IH"(2) [OF w1] n0
    have "set (found w') \<subseteq> set (found w1) \<union> {d. (n0, d) \<in> ?S\<^sup>+}" by simp
    ultimately show "set (found w') \<subseteq> set (found w) \<union> {d. (n0, d) \<in> ?S\<^sup>+}" by blast
  qed
qed

lemma getDescendants_sound:
  assumes "distinct (map fst m)" "getDescendants m ident = Some desc"
  shows "set desc \<subseteq> {d. (d, ident) \<in> (decl_rel m)\<^sup>+}"
proof -
  have S: "{(a, b). b \<in> members (reverse_map m) a} = (decl_rel m)\<inverse>"
    by (auto simp: members_reverse_map [OF assms(1)])
  from assms(2) obtain w' where
    "visit_descendants (Suc (Suc (length m))) (reverse_map m) ident \<lparr>found = [], visited = []\<rparr>
       = Some w'" "desc = found w'"
    unfolding getDescendants_def by auto
  from visit_descendants_sound(1) [OF this(1)] this(2) show ?thesis
    unfolding S by (auto simp: trancl_converse)
qed

lemma dep_rel_subset_decl_rel: "dep_rel m \<subseteq> decl_rel m"
  by (auto simp: dep_rel_def decl_rel_def in_deps_def)

text \<open>
  C9 (amended). For every map (distinct keys) and every identifier that does not lie on
  a cycle of declared dependencies, \<open>getAncestors\<close> and \<open>getDescendants\<close> return, and the
  sets they return do not contain the identifier.
\<close>

theorem ancestors_descendants_exclude_self:
  assumes "distinct (map fst m)" and "(ident, ident) \<notin> (decl_rel m)\<^sup>+"
  shows "\<exists>anc desc. getAncestors m ident = Some anc \<and> getDescendants m ident = Some desc
           \<and> ident \<notin> set anc \<and> ident \<notin> set desc"
proof -
  from getAncestors_returns obtain anc where anc: "getAncestors m ident = Some anc" by blast
  from getDescendants_returns [OF assms(1)] obtain desc where
    desc: "getDescendants m ident = Some desc" by blast
  have "ident \<notin> set anc"
  proof
    assume "ident \<in> set anc"
    with getAncestors_sound [OF anc] have "(ident, ident) \<in> (dep_rel m)\<^sup>+" by blast
    with trancl_mono [OF _ dep_rel_subset_decl_rel] assms(2) show False by blast
  qed
  moreover have "ident \<notin> set desc"
    using getDescendants_sound [OF assms(1) desc] assms(2) by blast
  ultimately show ?thesis using anc desc by blast
qed

lemma decl_rel_wit_map:
  "decl_rel wit_map = {(''b'', ''a''), (''b'', ''ext''), (''c'', ''a''), (''c'', ''b'')}"
  by (auto simp: decl_rel_def deps_of_def has_def wit_map_def split: if_splits)

theorem ancestors_descendants_exclude_self_witness:
  "distinct (map fst wit_map) \<and> (''c'', ''c'') \<notin> (decl_rel wit_map)\<^sup>+
   \<and> (\<exists>anc desc. getAncestors wit_map ''c'' = Some anc \<and> getDescendants wit_map ''c'' = Some desc
         \<and> ''c'' \<notin> set anc \<and> ''c'' \<notin> set desc)"
proof -
  have d: "distinct (map fst wit_map)" by (simp add: wit_map_def)
  have c: "(''c'', ''c'') \<notin> (decl_rel wit_map)\<^sup>+"
  proof
    assume "(''c'', ''c'') \<in> (decl_rel wit_map)\<^sup>+"
    then have "''c'' \<in> Range ((decl_rel wit_map)\<^sup>+)" by blast
    then show False by (simp add: decl_rel_wit_map)
  qed
  from ancestors_descendants_exclude_self [OF d c] d c show ?thesis by simp
qed

text \<open>
  C9 as stated fails on a map with a cycle: an item that depends on itself is its own
  ancestor and its own descendant.
\<close>

definition self_map :: "unit node_map" where
  "self_map = [(''a'', \<lparr>id_of = ''a'', dependencies = [''a''], level = None, data = None\<rparr>)]"

theorem ancestors_descendants_include_self_counterexample:
  "getAncestors self_map ''a'' = Some [''a''] \<and> getDescendants self_map ''a'' = Some [''a'']"
  by (simp add: self_map_def getAncestors_def getDescendants_def reverse_map_def add_reverse_def
        set_add_def has_def Let_def)

section \<open>Execution (executor.ts)\<close>

text \<open>The field \<open>output\<close> of a \<open>NodeResult\<close> is \<open>output_value\<close> here.\<close>

record ('d, 'o) NodeResult =
  node :: "'d DAGNode"
  success :: bool
  error :: "string option"
  duration :: int
  logs :: "string list"
  output_value :: "'o option"

text \<open>The field \<open>success\<close> of a \<open>DAGResult\<close> is \<open>dag_success\<close> here.\<close>

record ('d, 'o) DAGResult =
  dag_success :: bool
  results :: "string \<rightharpoonup> ('d, 'o) NodeResult"
  failedNodes :: "string list"
  totalDuration :: int

text \<open>
  The callbacks \<open>onNodeStart\<close> and \<open>onNodeComplete\<close> act on the caller's world only; the
  model records the places where they are called as events of a trace.
\<close>

record DAGExecutionOptions =
  concurrency :: "rat option"
  failFast :: "bool option"

subsection \<open>Promises\<close>

text \<open>
  JavaScript runs one piece of code at a time. A call of an \<open>async\<close> function runs at
  once up to its first \<open>await\<close> and hands back a promise; the promise settles later,
  while the caller waits in an \<open>await\<close> of its own. A promise settles once: it resolves
  with a value (\<open>Inr\<close>) or rejects with a reason (\<open>Inl\<close>). Which pending promise settles
  next is not decided by the program: the model takes it from a schedule, a list of
  picks for every \<open>await\<close>, a pick \<open>k\<close> choosing among the \<open>n\<close> pending promises the one
  at position \<open>k mod n\<close>.

  \<open>executing\<close> is the set of promises \<open>fn(item).then(...)\<close>: the item each was made for,
  and the reason when it has rejected. A promise that resolves has removed itself from
  the set in its \<open>then\<close> callback; one that rejects skips the callback and stays.
  \<open>events\<close> records every call \<open>fn(item)\<close> and every settling, in order; \<open>thrown\<close> is the
  reason the call of \<open>executeWithConcurrency\<close> itself rejects with.
\<close>

datatype 'a pool_event = Dispatched 'a | Settled 'a

record ('a, 'e, 'r) pool =
  pool_results :: "'r list"
  executing :: "('a \<times> 'e option) list"
  thrown :: "'e option"
  events :: "'a pool_event list"

definition pending :: "('a \<times> 'e option) list \<Rightarrow> ('a \<times> 'e option) list" where
  "pending ex = filter (\<lambda>(x, s). s = None) ex"

definition first_rejected :: "('a \<times> 'e option) list \<Rightarrow> 'e option" where
  "first_rejected ex = (case List.map_filter snd ex of [] \<Rightarrow> None | e # _ \<Rightarrow> Some e)"

text \<open>The pending promise at position \<open>k\<close> among the pending ones settles.\<close>

fun settle_in ::
  "('a \<Rightarrow> 'e + 'r) \<Rightarrow> nat \<Rightarrow> ('a \<times> 'e option) list
     \<Rightarrow> ('a \<times> 'e option) list \<times> ('a \<times> ('e + 'r)) option" where
  "settle_in fn k [] = ([], None)"
| "settle_in fn k ((x, Some e) # ex) =
     (case settle_in fn k ex of (ex', out) \<Rightarrow> ((x, Some e) # ex', out))"
| "settle_in fn 0 ((x, None) # ex) =
     (case fn x of
        Inl e \<Rightarrow> ((x, Some e) # ex, Some (x, Inl e))
      | Inr r \<Rightarrow> (ex, Some (x, Inr r)))"
| "settle_in fn (Suc k) ((x, None) # ex) =
     (case settle_in fn k ex of (ex', out) \<Rightarrow> ((x, None) # ex', out))"

definition settle :: "('a \<Rightarrow> 'e + 'r) \<Rightarrow> nat \<Rightarrow> ('a, 'e, 'r) pool \<Rightarrow> ('a, 'e, 'r) pool" where
  "settle fn k st =
     (let n = length (pending (executing st))
      in if n = 0 then st
         else (case settle_in fn (k mod n) (executing st) of
                 (ex', None) \<Rightarrow> st
               | (ex', Some (x, Inl e)) \<Rightarrow>
                   st\<lparr>executing := ex', events := events st @ [Settled x]\<rparr>
               | (ex', Some (x, Inr r)) \<Rightarrow>
                   st\<lparr>pool_results := pool_results st @ [r], executing := ex',
                      events := events st @ [Settled x]\<rparr>))"

text \<open>
  \<open>await Promise.race(executing)\<close>. A promise of the set that has rejected already
  decides the race at once. Otherwise the call waits; the first promise to settle
  decides the race. In both cases further promises may settle, as the schedule says, before
  the function that waits runs again: before the loop goes on when the race resolves, and
  before the rejection reaches the caller when it rejects. What settles once the call has
  rejected is no part of the call.
\<close>

definition await_race :: "('a \<Rightarrow> 'e + 'r) \<Rightarrow> nat list \<Rightarrow> ('a, 'e, 'r) pool \<Rightarrow> ('a, 'e, 'r) pool" where
  "await_race fn picks st =
     (case first_rejected (executing st) of
        Some e \<Rightarrow> (fold (settle fn) picks st)\<lparr>thrown := Some e\<rparr>
      | None \<Rightarrow>
          (let st1 = settle fn (case picks of [] \<Rightarrow> 0 | k # _ \<Rightarrow> k) st
           in case first_rejected (executing st1) of
                Some e \<Rightarrow> (fold (settle fn) (tl picks) st1)\<lparr>thrown := Some e\<rparr>
              | None \<Rightarrow> fold (settle fn) (tl picks) st1))"

text \<open>
  \<open>await Promise.all(executing)\<close>: rejects with the first rejection, resolves when every
  promise of the set has resolved. When it rejects, further promises may settle before the
  rejection reaches the caller.
\<close>

fun drain :: "('a \<Rightarrow> 'e + 'r) \<Rightarrow> nat list \<Rightarrow> nat \<Rightarrow> ('a, 'e, 'r) pool \<Rightarrow> ('a, 'e, 'r) pool" where
  "drain fn picks 0 st = st"
| "drain fn picks (Suc n) st =
     (let st1 = settle fn (case picks of [] \<Rightarrow> 0 | k # _ \<Rightarrow> k) st
      in case first_rejected (executing st1) of
           Some e \<Rightarrow> (fold (settle fn) (tl picks) st1)\<lparr>thrown := Some e\<rparr>
         | None \<Rightarrow> drain fn (tl picks) n st1)"

definition await_all :: "('a \<Rightarrow> 'e + 'r) \<Rightarrow> nat list \<Rightarrow> ('a, 'e, 'r) pool \<Rightarrow> ('a, 'e, 'r) pool" where
  "await_all fn picks st =
     (case first_rejected (executing st) of
        Some e \<Rightarrow> (fold (settle fn) picks st)\<lparr>thrown := Some e\<rparr>
      | None \<Rightarrow> drain fn picks (length (executing st)) st)"

text \<open>
  The \<open>for\<close> loop of \<open>executeWithConcurrency\<close>; every \<open>await\<close> takes the next picks. The
  limit is a JavaScript number: a rational here, which leaves out \<open>NaN\<close> and the infinities.
\<close>

fun run_items ::
  "('a \<Rightarrow> 'e + 'r) \<Rightarrow> rat \<Rightarrow> 'a list \<Rightarrow> nat list list \<Rightarrow> ('a, 'e, 'r) pool
     \<Rightarrow> ('a, 'e, 'r) pool \<times> nat list list" where
  "run_items fn limit [] sched st = (st, sched)"
| "run_items fn limit (item # items) sched st =
     (let st1 = st\<lparr>executing := executing st @ [(item, None)],
                   events := events st @ [Dispatched item]\<rparr>
      in if limit \<le> of_nat (length (executing st1))
         then (let st2 = await_race fn (case sched of [] \<Rightarrow> [] | p # _ \<Rightarrow> p) st1
               in if thrown st2 \<noteq> None then (st2, tl sched)
                  else run_items fn limit items (tl sched) st2)
         else run_items fn limit items sched st1)"

definition executeWithConcurrency ::
  "nat list list \<Rightarrow> 'a list \<Rightarrow> ('a \<Rightarrow> 'e + 'r) \<Rightarrow> rat \<Rightarrow> ('a, 'e, 'r) pool" where
  "executeWithConcurrency sched items fn limit =
     (case run_items fn limit items sched
             \<lparr>pool_results = [], executing = [], thrown = None, events = []\<rparr> of
        (st, sched') \<Rightarrow>
          if thrown st \<noteq> None then st
          else await_all fn (case sched' of [] \<Rightarrow> [] | p # _ \<Rightarrow> p) st)"

text \<open>The number of promises made and not yet settled after a sequence of events.\<close>

definition in_flight :: "'a pool_event list \<Rightarrow> int" where
  "in_flight evs = int (length (filter (\<lambda>ev. case ev of Dispatched x \<Rightarrow> True | Settled x \<Rightarrow> False) evs))
                 - int (length (filter (\<lambda>ev. case ev of Dispatched x \<Rightarrow> False | Settled x \<Rightarrow> True) evs))"

definition dispatched_of :: "'a pool_event list \<Rightarrow> 'a list" where
  "dispatched_of evs =
     List.map_filter (\<lambda>ev. case ev of Dispatched x \<Rightarrow> Some x | Settled x \<Rightarrow> None) evs"

definition resolved_of :: "('a \<Rightarrow> 'e + 'r) \<Rightarrow> 'a pool_event list \<Rightarrow> 'r list" where
  "resolved_of fn evs =
     List.map_filter
       (\<lambda>ev. case ev of
               Dispatched x \<Rightarrow> None
             | Settled x \<Rightarrow> (case fn x of Inl e \<Rightarrow> None | Inr r \<Rightarrow> Some r)) evs"

subsection \<open>One promise settles\<close>

lemma settle_in_spec:
  "k < length (pending ex) \<Longrightarrow>
     \<exists>ex' x. settle_in fn k ex = (ex', Some (x, fn x))
       \<and> (case fn x of
             Inl e \<Rightarrow> add_mset (x, Some e) (mset ex) = add_mset (x, None) (mset ex')
           | Inr r \<Rightarrow> mset ex = add_mset (x, None) (mset ex'))"
proof (induction fn k ex rule: settle_in.induct)
  case (1 fn k)
  then show ?case by (simp add: pending_def)
next
  case (2 fn k x e ex)
  from "2.prems" have "k < length (pending ex)" by (simp add: pending_def)
  from "2.IH" [OF this] obtain ex' y where
    "settle_in fn k ex = (ex', Some (y, fn y))"
    "case fn y of Inl e \<Rightarrow> add_mset (y, Some e) (mset ex) = add_mset (y, None) (mset ex')
       | Inr r \<Rightarrow> mset ex = add_mset (y, None) (mset ex')"
    by blast
  then show ?case by (cases "fn y") auto
next
  case (3 fn x ex)
  show ?case by (cases "fn x") auto
next
  case (4 fn k x ex)
  from "4.prems" have "k < length (pending ex)" by (simp add: pending_def)
  from "4.IH" [OF this] obtain ex' y where
    "settle_in fn k ex = (ex', Some (y, fn y))"
    "case fn y of Inl e \<Rightarrow> add_mset (y, Some e) (mset ex) = add_mset (y, None) (mset ex')
       | Inr r \<Rightarrow> mset ex = add_mset (y, None) (mset ex')"
    by blast
  then show ?case by (cases "fn y") auto
qed

text \<open>What \<open>settle\<close> does, case by case.\<close>

lemma settle_none: "pending (executing st) = [] \<Longrightarrow> settle fn k st = st"
  by (simp add: settle_def)

lemma settle_some:
  assumes "pending (executing st) \<noteq> []"
  obtains (rejects) x e where "fn x = Inl e"
      "settle fn k st = st\<lparr>executing := executing (settle fn k st), events := events st @ [Settled x]\<rparr>"
      "add_mset (x, Some e) (mset (executing st)) = add_mset (x, None) (mset (executing (settle fn k st)))"
    | (resolves) x r where "fn x = Inr r"
      "settle fn k st = st\<lparr>pool_results := pool_results st @ [r],
                             executing := executing (settle fn k st),
                             events := events st @ [Settled x]\<rparr>"
      "mset (executing st) = add_mset (x, None) (mset (executing (settle fn k st)))"
proof -
  let ?n = "length (pending (executing st))"
  from assms have n: "?n \<noteq> 0" by simp
  then have "k mod ?n < ?n" by simp
  from settle_in_spec [OF this, of fn] obtain ex' x where
    s: "settle_in fn (k mod ?n) (executing st) = (ex', Some (x, fn x))"
    and m: "case fn x of
             Inl e \<Rightarrow> add_mset (x, Some e) (mset (executing st)) = add_mset (x, None) (mset ex')
           | Inr r \<Rightarrow> mset (executing st) = add_mset (x, None) (mset ex')"
    by blast
  show thesis
  proof (cases "fn x")
    case (Inl e)
    with n s m show ?thesis
      by (intro rejects [of x e]) (simp_all add: settle_def Let_def)
  next
    case (Inr r)
    with n s m show ?thesis
      by (intro resolves [of x r]) (simp_all add: settle_def Let_def)
  qed
qed

subsection \<open>Counting events\<close>

definition bounded :: "int \<Rightarrow> 'a pool_event list \<Rightarrow> bool" where
  "bounded limit evs \<longleftrightarrow> (\<forall>n \<le> length evs. in_flight (take n evs) \<le> limit)"

lemma in_flight_simps [simp]:
  "in_flight [] = 0"
  "in_flight (evs @ [Dispatched x]) = in_flight evs + 1"
  "in_flight (evs @ [Settled x]) = in_flight evs - 1"
  by (simp_all add: in_flight_def)

lemma bounded_Nil [simp]: "bounded limit [] \<longleftrightarrow> 0 \<le> limit"
  by (simp add: bounded_def)

lemma bounded_snoc:
  "bounded limit (evs @ [ev]) \<longleftrightarrow> bounded limit evs \<and> in_flight (evs @ [ev]) \<le> limit"
proof -
  have "(\<forall>n \<le> Suc (length evs). in_flight (take n (evs @ [ev])) \<le> limit)
        \<longleftrightarrow> (\<forall>n \<le> length evs. in_flight (take n (evs @ [ev])) \<le> limit)
            \<and> in_flight (take (Suc (length evs)) (evs @ [ev])) \<le> limit"
    by (auto simp: le_Suc_eq)
  then show ?thesis by (simp add: bounded_def)
qed

lemma map_filter_append:
  "List.map_filter f (xs @ ys) = List.map_filter f xs @ List.map_filter f ys"
  by (simp add: List.map_filter_def)

lemma dispatched_of_simps [simp]:
  "dispatched_of [] = []"
  "dispatched_of (evs @ [Dispatched x]) = dispatched_of evs @ [x]"
  "dispatched_of (evs @ [Settled x]) = dispatched_of evs"
  by (simp_all add: dispatched_of_def map_filter_append List.map_filter_simps)

lemma resolved_of_simps [simp]:
  "resolved_of fn [] = []"
  "resolved_of fn (evs @ [Dispatched x]) = resolved_of fn evs"
  "fn x = Inr r \<Longrightarrow> resolved_of fn (evs @ [Settled x]) = resolved_of fn evs @ [r]"
  "fn x = Inl e \<Longrightarrow> resolved_of fn (evs @ [Settled x]) = resolved_of fn evs"
  by (simp_all add: resolved_of_def map_filter_append List.map_filter_simps)

lemma pending_count_resolve:
  assumes "mset ex = add_mset (x, None) (mset ex')"
  shows "length ex = Suc (length ex')" and "length (pending ex) = Suc (length (pending ex'))"
proof -
  from assms have "size (mset ex) = size (add_mset (x, None) (mset ex'))" by simp
  then show "length ex = Suc (length ex')" by simp
  from assms have "filter_mset (\<lambda>(x, s). s = None) (mset ex)
                     = filter_mset (\<lambda>(x, s). s = None) (add_mset (x, None) (mset ex'))"
    by simp
  then have "mset (pending ex) = add_mset (x, None) (mset (pending ex'))"
    by (simp add: pending_def)
  then have "size (mset (pending ex)) = size (add_mset (x, None) (mset (pending ex')))"
    by simp
  then show "length (pending ex) = Suc (length (pending ex'))" by simp
qed

lemma pending_count_reject:
  assumes "add_mset (x, Some e) (mset ex) = add_mset (x, None) (mset ex')"
  shows "length ex = length ex'" and "length (pending ex) = Suc (length (pending ex'))"
proof -
  from assms have "size (add_mset (x, Some e) (mset ex)) = size (add_mset (x, None) (mset ex'))"
    by simp
  then show "length ex = length ex'" by simp
  from assms have "filter_mset (\<lambda>(x, s). s = None) (add_mset (x, Some e) (mset ex))
                     = filter_mset (\<lambda>(x, s). s = None) (add_mset (x, None) (mset ex'))"
    by simp
  then have "mset (pending ex) = add_mset (x, None) (mset (pending ex'))"
    by (simp add: pending_def)
  then have "size (mset (pending ex)) = size (add_mset (x, None) (mset (pending ex')))"
    by simp
  then show "length (pending ex) = Suc (length (pending ex'))" by simp
qed

lemma first_rejected_None_iff: "first_rejected ex = None \<longleftrightarrow> (\<forall>p \<in> set ex. snd p = None)"
proof (induction ex)
  case Nil
  show ?case by (simp add: first_rejected_def List.map_filter_simps)
next
  case (Cons p ex)
  then show ?case
    by (cases "snd p") (auto simp: first_rejected_def List.map_filter_simps split: list.splits)
qed

lemma all_pending: "first_rejected ex = None \<Longrightarrow> pending ex = ex"
  by (auto simp: first_rejected_None_iff pending_def filter_id_conv)

subsection \<open>Invariants of the pool\<close>

text \<open>
  \<open>items_inv\<close>: the results are those of the promises that have resolved, in the order
  they resolved; every item dispatched is in the results or still in the set; the
  promises in flight are the pending ones of the set.
\<close>

definition items_inv :: "('a \<Rightarrow> 'e + 'r) \<Rightarrow> ('a, 'e, 'r) pool \<Rightarrow> bool" where
  "items_inv fn st \<longleftrightarrow>
     pool_results st = resolved_of fn (events st)
   \<and> mset (map Inr (pool_results st)) + mset (map (\<lambda>p. fn (fst p)) (executing st))
       = mset (map fn (dispatched_of (events st)))
   \<and> in_flight (events st) = int (length (pending (executing st)))"

definition limit_inv :: "int \<Rightarrow> ('a, 'e, 'r) pool \<Rightarrow> bool" where
  "limit_inv limit st \<longleftrightarrow>
     bounded limit (events st) \<and> int (length (executing st)) \<le> limit"

lemma settle_thrown [simp]: "thrown (settle fn k st) = thrown st"
proof (cases "pending (executing st) = []")
  case True
  then show ?thesis by (simp add: settle_none)
next
  case False
  then show ?thesis
    by (rule settle_some [of st fn k]) (erule ssubst, simp)+
qed

lemma settle_dispatched [simp]:
  "dispatched_of (events (settle fn k st)) = dispatched_of (events st)"
proof (cases "pending (executing st) = []")
  case True
  then show ?thesis by (simp add: settle_none)
next
  case False
  then show ?thesis
    by (rule settle_some [of st fn k]) (erule ssubst, simp)+
qed

lemma settle_items_inv:
  assumes "items_inv fn st"
  shows "items_inv fn (settle fn k st)"
proof (cases "pending (executing st) = []")
  case True
  with assms show ?thesis by (simp add: settle_none)
next
  case False
  from assms have a: "pool_results st = resolved_of fn (events st)"
    and b: "mset (map Inr (pool_results st)) + mset (map (\<lambda>p. fn (fst p)) (executing st))
              = mset (map fn (dispatched_of (events st)))"
    and c: "in_flight (events st) = int (length (pending (executing st)))"
    unfolding items_inv_def by blast+
  from False show ?thesis
  proof (cases rule: settle_some [of st fn k])
    case (rejects x e)
    let ?st' = "settle fn k st"
    have ev: "events ?st' = events st @ [Settled x]" and res: "pool_results ?st' = pool_results st"
      by (subst rejects(2), simp)+
    from rejects(3) have "image_mset (\<lambda>p. fn (fst p)) (add_mset (x, Some e) (mset (executing st)))
        = image_mset (\<lambda>p. fn (fst p)) (add_mset (x, None) (mset (executing ?st')))"
      by simp
    then have ex: "mset (map (\<lambda>p. fn (fst p)) (executing ?st'))
                     = mset (map (\<lambda>p. fn (fst p)) (executing st))"
      by simp
    show ?thesis
      unfolding items_inv_def ev res ex
    proof (intro conjI)
      show "pool_results st = resolved_of fn (events st @ [Settled x])"
        using a rejects(1) by simp
      show "mset (map Inr (pool_results st)) + mset (map (\<lambda>p. fn (fst p)) (executing st))
              = mset (map fn (dispatched_of (events st @ [Settled x])))"
        using b by simp
      show "in_flight (events st @ [Settled x]) = int (length (pending (executing ?st')))"
        using c pending_count_reject(2) [OF rejects(3)] by simp
    qed
  next
    case (resolves x r)
    let ?st' = "settle fn k st"
    have ev: "events ?st' = events st @ [Settled x]"
      and res: "pool_results ?st' = pool_results st @ [r]"
      by (subst resolves(2), simp)+
    from resolves(3) have "image_mset (\<lambda>p. fn (fst p)) (mset (executing st))
        = image_mset (\<lambda>p. fn (fst p)) (add_mset (x, None) (mset (executing ?st')))"
      by simp
    then have ex: "mset (map (\<lambda>p. fn (fst p)) (executing st))
                     = add_mset (Inr r) (mset (map (\<lambda>p. fn (fst p)) (executing ?st')))"
      using resolves(1) by simp
    show ?thesis
      unfolding items_inv_def ev res
    proof (intro conjI)
      show "pool_results st @ [r] = resolved_of fn (events st @ [Settled x])"
        using a resolves(1) by simp
      show "mset (map Inr (pool_results st @ [r])) + mset (map (\<lambda>p. fn (fst p)) (executing ?st'))
              = mset (map fn (dispatched_of (events st @ [Settled x])))"
        using b unfolding ex by simp
      show "in_flight (events st @ [Settled x]) = int (length (pending (executing ?st')))"
        using c pending_count_resolve(2) [OF resolves(3)] by simp
    qed
  qed
qed

lemma settle_limit_inv:
  assumes "limit_inv limit st" "items_inv fn st"
  shows "limit_inv limit (settle fn k st)"
proof (cases "pending (executing st) = []")
  case True
  with assms show ?thesis by (simp add: settle_none)
next
  case False
  from assms(2) have fl: "in_flight (events st) = int (length (pending (executing st)))"
    by (simp add: items_inv_def)
  from assms(1) have b: "bounded limit (events st)" "int (length (executing st)) \<le> limit"
    by (simp_all add: limit_inv_def)
  have "length (pending (executing st)) \<le> length (executing st)"
    by (simp add: pending_def)
  with fl b(2) have le: "in_flight (events st) \<le> limit" by simp
  from False show ?thesis
  proof (cases rule: settle_some [of st fn k])
    case (rejects x e)
    have ev: "events (settle fn k st) = events st @ [Settled x]"
      by (subst rejects(2), simp)
    show ?thesis
      unfolding limit_inv_def ev bounded_snoc
      using b le pending_count_reject(1) [OF rejects(3)] by simp
  next
    case (resolves x r)
    have ev: "events (settle fn k st) = events st @ [Settled x]"
      by (subst resolves(2), simp)
    show ?thesis
      unfolding limit_inv_def ev bounded_snoc
      using b le pending_count_resolve(1) [OF resolves(3)] by simp
  qed
qed

lemma inv_thrown_update [simp]:
  "items_inv fn (st\<lparr>thrown := e\<rparr>) = items_inv fn st"
  "limit_inv limit (st\<lparr>thrown := e\<rparr>) = limit_inv limit st"
  by (simp_all add: items_inv_def limit_inv_def)

lemma settle_length: "length (executing (settle fn k st)) \<le> length (executing st)"
proof (cases "pending (executing st) = []")
  case True
  then show ?thesis by (simp add: settle_none)
next
  case False
  then show ?thesis
  proof (cases rule: settle_some [of st fn k])
    case (rejects x e)
    from pending_count_reject(1) [OF rejects(3)] show ?thesis by simp
  next
    case (resolves x r)
    from pending_count_resolve(1) [OF resolves(3)] show ?thesis by simp
  qed
qed

lemma settle_resolved:
  assumes "pending (executing st) \<noteq> []" "first_rejected (executing (settle fn k st)) = None"
  shows "Suc (length (executing (settle fn k st))) = length (executing st)"
  using assms(1)
proof (cases rule: settle_some [of st fn k])
  case (rejects x e)
  have "(x, Some e) \<in># add_mset (x, Some e) (mset (executing st))" by simp
  then have "(x, Some e) \<in># add_mset (x, None) (mset (executing (settle fn k st)))"
    unfolding rejects(3) .
  then have "(x, Some e) \<in> set (executing (settle fn k st))" by simp
  with assms(2) show ?thesis by (auto simp: first_rejected_None_iff)
next
  case (resolves x r)
  from pending_count_resolve(1) [OF resolves(3)] show ?thesis by simp
qed

lemma fold_settle:
  "thrown (fold (settle fn) ks st) = thrown st"
  "dispatched_of (events (fold (settle fn) ks st)) = dispatched_of (events st)"
  "length (executing (fold (settle fn) ks st)) \<le> length (executing st)"
  "items_inv fn st \<Longrightarrow> items_inv fn (fold (settle fn) ks st)"
  "items_inv fn st \<Longrightarrow> limit_inv limit st \<Longrightarrow> limit_inv limit (fold (settle fn) ks st)"
proof (induction ks arbitrary: st)
  case Nil
  {
    case 1 show ?case by simp
  next
    case 2 show ?case by simp
  next
    case 3 show ?case by simp
  next
    case 4 then show ?case by simp
  next
    case 5 then show ?case by simp
  }
next
  case (Cons k ks)
  {
    case 1 show ?case by (simp add: Cons.IH(1))
  next
    case 2 show ?case by (simp add: Cons.IH(2))
  next
    case 3
    show ?case
      using Cons.IH(3) [of "settle fn k st"] settle_length [of fn k st] by simp
  next
    case 4
    then show ?case by (simp add: Cons.IH(4) settle_items_inv)
  next
    case 5
    then show ?case by (simp add: Cons.IH(5) settle_items_inv settle_limit_inv)
  }
qed

subsection \<open>Waiting\<close>

lemma await_race_inv:
  "dispatched_of (events (await_race fn picks st)) = dispatched_of (events st)"
  "items_inv fn st \<Longrightarrow> items_inv fn (await_race fn picks st)"
  "items_inv fn st \<Longrightarrow> limit_inv limit st \<Longrightarrow> limit_inv limit (await_race fn picks st)"
  by (auto simp: await_race_def Let_def fold_settle settle_items_inv settle_limit_inv
        split: option.splits)

lemma await_race_frees:
  assumes "thrown (await_race fn picks st) = None" "executing st \<noteq> []"
  shows "length (executing (await_race fn picks st)) < length (executing st)"
    and "thrown st = None"
proof -
  let ?st1 = "settle fn (case picks of [] \<Rightarrow> 0 | k # _ \<Rightarrow> k) st"
  from assms(1) have r0: "first_rejected (executing st) = None"
    by (auto simp: await_race_def split: option.splits)
  with assms(1) have r1: "first_rejected (executing ?st1) = None"
    by (auto simp: await_race_def Let_def split: option.splits)
  with r0 have eq: "await_race fn picks st = fold (settle fn) (tl picks) ?st1"
    by (simp add: await_race_def Let_def)
  from r0 assms(2) have "pending (executing st) \<noteq> []" by (simp add: all_pending)
  from settle_resolved [OF this r1]
  have "Suc (length (executing ?st1)) = length (executing st)" .
  with fold_settle(3) [of fn "tl picks" ?st1]
  show "length (executing (await_race fn picks st)) < length (executing st)"
    unfolding eq by simp
  from assms(1) show "thrown st = None"
    unfolding eq by (simp add: fold_settle)
qed

lemma drain_inv:
  "dispatched_of (events (drain fn picks n st)) = dispatched_of (events st)"
  "items_inv fn st \<Longrightarrow> items_inv fn (drain fn picks n st)"
  "items_inv fn st \<Longrightarrow> limit_inv limit st \<Longrightarrow> limit_inv limit (drain fn picks n st)"
proof (induction fn picks n st rule: drain.induct)
  case (1 fn picks st)
  {
    case 1 show ?case by simp
  next
    case 2 then show ?case by simp
  next
    case 3 then show ?case by simp
  }
next
  case (2 fn picks n st)
  let ?st1 = "settle fn (case picks of [] \<Rightarrow> 0 | k # _ \<Rightarrow> k) st"
  {
    case 1
    show ?case
      using "2.IH"(1) [OF refl]
      by (cases "first_rejected (executing ?st1)") (simp_all add: Let_def fold_settle)
  next
    case 2
    then have i: "items_inv fn ?st1" by (rule settle_items_inv)
    show ?case
    proof (cases "first_rejected (executing ?st1)")
      case None
      with "2.IH"(2) [OF refl None i] show ?thesis by (simp add: Let_def)
    next
      case (Some e)
      with i show ?thesis by (simp add: Let_def fold_settle)
    qed
  next
    case 3
    then have i: "items_inv fn ?st1" and l: "limit_inv limit ?st1"
      by (simp_all add: settle_items_inv settle_limit_inv)
    show ?case
    proof (cases "first_rejected (executing ?st1)")
      case None
      with "2.IH"(3) [OF refl None i l] show ?thesis by (simp add: Let_def)
    next
      case (Some e)
      with i l show ?thesis by (simp add: Let_def fold_settle)
    qed
  }
qed

lemma drain_empties:
  assumes "thrown (drain fn picks n st) = None" "first_rejected (executing st) = None"
    "length (executing st) = n"
  shows "executing (drain fn picks n st) = []"
  using assms
proof (induction fn picks n st rule: drain.induct)
  case (1 fn picks st)
  then show ?case by simp
next
  case (2 fn picks n st)
  let ?st1 = "settle fn (case picks of [] \<Rightarrow> 0 | k # _ \<Rightarrow> k) st"
  from "2.prems"(1) have r1: "first_rejected (executing ?st1) = None"
    by (auto simp: Let_def split: option.splits)
  from "2.prems"(2,3) have "pending (executing st) \<noteq> []"
    by (auto simp: all_pending)
  from settle_resolved [OF this r1] "2.prems"(3) have len: "length (executing ?st1) = n" by simp
  from "2.prems"(1) r1 have "thrown (drain fn (tl picks) n ?st1) = None"
    by (simp add: Let_def)
  from "2.IH" [OF refl r1 this r1 len] r1 show ?case by (simp add: Let_def)
qed

lemma await_all_inv:
  "dispatched_of (events (await_all fn picks st)) = dispatched_of (events st)"
  "items_inv fn st \<Longrightarrow> items_inv fn (await_all fn picks st)"
  "items_inv fn st \<Longrightarrow> limit_inv limit st \<Longrightarrow> limit_inv limit (await_all fn picks st)"
  by (auto simp: await_all_def drain_inv fold_settle split: option.splits)

lemma await_all_empties:
  "thrown (await_all fn picks st) = None \<Longrightarrow> executing (await_all fn picks st) = []"
  by (auto simp: await_all_def drain_empties split: option.splits)

subsection \<open>The loop over the items\<close>

lemma dispatch_items_inv:
  assumes "items_inv fn st"
  shows "items_inv fn (st\<lparr>executing := executing st @ [(item, None)],
                          events := events st @ [Dispatched item]\<rparr>)"
proof -
  from assms have a: "pool_results st = resolved_of fn (events st)"
    and b: "mset (map Inr (pool_results st)) + mset (map (\<lambda>p. fn (fst p)) (executing st))
              = mset (map fn (dispatched_of (events st)))"
    and c: "in_flight (events st) = int (length (pending (executing st)))"
    unfolding items_inv_def by blast+
  show ?thesis
    unfolding items_inv_def
  proof (intro conjI)
    show "pool_results (st\<lparr>executing := executing st @ [(item, None)],
                            events := events st @ [Dispatched item]\<rparr>)
          = resolved_of fn (events (st\<lparr>executing := executing st @ [(item, None)],
                                        events := events st @ [Dispatched item]\<rparr>))"
      using a by simp
    show "mset (map Inr (pool_results (st\<lparr>executing := executing st @ [(item, None)],
                                           events := events st @ [Dispatched item]\<rparr>)))
          + mset (map (\<lambda>p. fn (fst p)) (executing (st\<lparr>executing := executing st @ [(item, None)],
                                                         events := events st @ [Dispatched item]\<rparr>)))
          = mset (map fn (dispatched_of (events (st\<lparr>executing := executing st @ [(item, None)],
                                                    events := events st @ [Dispatched item]\<rparr>))))"
      using b by simp
    show "in_flight (events (st\<lparr>executing := executing st @ [(item, None)],
                                events := events st @ [Dispatched item]\<rparr>))
          = int (length (pending (executing (st\<lparr>executing := executing st @ [(item, None)],
                                                  events := events st @ [Dispatched item]\<rparr>))))"
      using c by (simp add: pending_def)
  qed
qed

lemma dispatch_limit_inv:
  assumes "items_inv fn st" "limit_inv limit st" "int (length (executing st)) < limit"
  shows "limit_inv limit (st\<lparr>executing := executing st @ [(item, None)],
                              events := events st @ [Dispatched item]\<rparr>)"
proof -
  from assms(1) have "in_flight (events st) = int (length (pending (executing st)))"
    by (simp add: items_inv_def)
  moreover have "length (pending (executing st)) \<le> length (executing st)"
    by (simp add: pending_def)
  ultimately have "in_flight (events st) + 1 \<le> limit" using assms(3) by simp
  with assms(2,3) show ?thesis
    by (simp add: limit_inv_def bounded_snoc)
qed

lemma run_items_items_inv:
  "items_inv fn st \<Longrightarrow> items_inv fn (fst (run_items fn limit items sched st))"
proof (induction fn limit items sched st rule: run_items.induct)
  case (1 fn limit sched st)
  then show ?case by simp
next
  case (2 fn limit item items sched st)
  let ?st1 = "st\<lparr>executing := executing st @ [(item, None)],
                   events := events st @ [Dispatched item]\<rparr>"
  let ?st2 = "await_race fn (case sched of [] \<Rightarrow> [] | p # _ \<Rightarrow> p) ?st1"
  have i1: "items_inv fn ?st1" by (rule dispatch_items_inv [OF "2.prems"])
  then have i2: "items_inv fn ?st2" by (rule await_race_inv(2))
  show ?case
  proof (cases "limit \<le> of_nat (length (executing ?st1))")
    case True
    show ?thesis
    proof (cases "thrown ?st2 \<noteq> None")
      case t: True
      with True i2 show ?thesis by (simp add: Let_def)
    next
      case False
      from "2.IH"(1) [OF refl True refl False i2] True False show ?thesis
        by (simp add: Let_def)
    qed
  next
    case False
    from "2.IH"(2) [OF refl False i1] False show ?thesis by (simp add: Let_def)
  qed
qed

lemma run_items_dispatched:
  "thrown (fst (run_items fn limit items sched st)) = None \<Longrightarrow>
     dispatched_of (events (fst (run_items fn limit items sched st)))
       = dispatched_of (events st) @ items"
proof (induction fn limit items sched st rule: run_items.induct)
  case (1 fn limit sched st)
  then show ?case by simp
next
  case (2 fn limit item items sched st)
  let ?st1 = "st\<lparr>executing := executing st @ [(item, None)],
                   events := events st @ [Dispatched item]\<rparr>"
  let ?st2 = "await_race fn (case sched of [] \<Rightarrow> [] | p # _ \<Rightarrow> p) ?st1"
  show ?case
  proof (cases "limit \<le> of_nat (length (executing ?st1))")
    case True
    show ?thesis
    proof (cases "thrown ?st2 \<noteq> None")
      case t: True
      with True "2.prems" show ?thesis by (simp add: Let_def)
    next
      case False
      with True "2.prems" have "thrown (fst (run_items fn limit items (tl sched) ?st2)) = None"
        by (simp add: Let_def)
      from "2.IH"(1) [OF refl True refl False this] True False show ?thesis
        by (simp add: Let_def await_race_inv(1))
    qed
  next
    case False
    with "2.prems" have "thrown (fst (run_items fn limit items sched ?st1)) = None"
      by (simp add: Let_def)
    from "2.IH"(2) [OF refl False this] False show ?thesis by (simp add: Let_def)
  qed
qed

text \<open>
  The limit acts through the test \<open>executing.size >= limit\<close> only, so what bounds the set is
  the least integer \<open>N\<close> at or above the limit.
\<close>

lemma run_items_limit_inv:
  "items_inv fn st \<Longrightarrow> limit_inv N st \<Longrightarrow> int (length (executing st)) < N
     \<Longrightarrow> limit \<le> of_int N
     \<Longrightarrow> limit_inv N (fst (run_items fn limit items sched st))"
proof (induction fn limit items sched st rule: run_items.induct)
  case (1 fn limit sched st)
  then show ?case by simp
next
  case (2 fn limit item items sched st)
  let ?st1 = "st\<lparr>executing := executing st @ [(item, None)],
                   events := events st @ [Dispatched item]\<rparr>"
  let ?st2 = "await_race fn (case sched of [] \<Rightarrow> [] | p # _ \<Rightarrow> p) ?st1"
  have i1: "items_inv fn ?st1" by (rule dispatch_items_inv [OF "2.prems"(1)])
  then have i2: "items_inv fn ?st2" by (rule await_race_inv(2))
  have l1: "limit_inv N ?st1" by (rule dispatch_limit_inv [OF "2.prems"(1,2,3)])
  with i1 have l2: "limit_inv N ?st2" by (rule await_race_inv(3))
  show ?case
  proof (cases "limit \<le> of_nat (length (executing ?st1))")
    case True
    show ?thesis
    proof (cases "thrown ?st2 \<noteq> None")
      case t: True
      with True l2 show ?thesis by (simp add: Let_def)
    next
      case False
      then have "thrown ?st2 = None" by simp
      from await_race_frees(1) [OF this]
      have "length (executing ?st2) < length (executing ?st1)" by simp
      moreover from l1 have "int (length (executing ?st1)) \<le> N"
        by (simp add: limit_inv_def)
      ultimately have "int (length (executing ?st2)) < N" by linarith
      from "2.IH"(1) [OF refl True refl False i2 l2 this "2.prems"(4)] True False show ?thesis
        by (simp add: Let_def)
    qed
  next
    case False
    then have "(of_nat (length (executing ?st1)) :: rat) < limit" by simp
    also note "2.prems"(4)
    finally have "(of_int (int (length (executing ?st1))) :: rat) < of_int N" by simp
    then have "int (length (executing ?st1)) < N" by (simp only: of_int_less_iff)
    from "2.IH"(2) [OF refl False i1 l1 this "2.prems"(4)] False show ?thesis
      by (simp add: Let_def)
  qed
qed

subsection \<open>\<open>executeWithConcurrency\<close>\<close>

lemma init_pool_inv:
  "items_inv fn \<lparr>pool_results = [], executing = [], thrown = None, events = []\<rparr>"
  "0 \<le> limit \<Longrightarrow> limit_inv limit \<lparr>pool_results = [], executing = [], thrown = None, events = []\<rparr>"
  by (simp_all add: items_inv_def limit_inv_def pending_def)

lemma executeWithConcurrency_eq:
  "executeWithConcurrency sched items fn limit =
     (let r = run_items fn limit items sched
                \<lparr>pool_results = [], executing = [], thrown = None, events = []\<rparr>
      in if thrown (fst r) \<noteq> None then fst r
         else await_all fn (case snd r of [] \<Rightarrow> [] | p # _ \<Rightarrow> p) (fst r))"
  by (simp add: executeWithConcurrency_def Let_def split: prod.splits)

lemma executeWithConcurrency_items_inv:
  "items_inv fn (executeWithConcurrency sched items fn limit)"
  using run_items_items_inv [OF init_pool_inv(1), of fn limit items sched]
  by (simp add: executeWithConcurrency_eq Let_def await_all_inv)

lemma executeWithConcurrency_limit_inv:
  assumes "1 \<le> N" "limit \<le> of_int N"
  shows "limit_inv N (executeWithConcurrency sched items fn limit)"
proof -
  let ?init = "\<lparr>pool_results = [], executing = [], thrown = None, events = []\<rparr>
                 :: ('a, 'b, 'c) pool"
  from assms have "limit_inv N ?init" "int (length (executing ?init)) < N"
    by (simp_all add: init_pool_inv)
  from run_items_limit_inv [OF init_pool_inv(1) this assms(2), of fn items sched]
    run_items_items_inv [OF init_pool_inv(1), of fn limit items sched]
  show ?thesis
    by (simp add: executeWithConcurrency_eq Let_def await_all_inv)
qed

lemma executeWithConcurrency_returns:
  assumes "thrown (executeWithConcurrency sched items fn limit) = None"
  shows "dispatched_of (events (executeWithConcurrency sched items fn limit)) = items"
    and "executing (executeWithConcurrency sched items fn limit) = []"
    and "mset (map Inr (pool_results (executeWithConcurrency sched items fn limit)))
           = mset (map fn items)"
    and "pool_results (executeWithConcurrency sched items fn limit)
           = resolved_of fn (events (executeWithConcurrency sched items fn limit))"
proof -
  let ?r = "run_items fn limit items sched
              \<lparr>pool_results = [], executing = [], thrown = None, events = []\<rparr>"
  let ?st = "executeWithConcurrency sched items fn limit"
  from assms have t: "thrown (fst ?r) = None"
    by (auto simp: executeWithConcurrency_eq Let_def split: if_splits)
  then have eq: "?st = await_all fn (case snd ?r of [] \<Rightarrow> [] | p # _ \<Rightarrow> p) (fst ?r)"
    by (simp add: executeWithConcurrency_eq Let_def)
  from run_items_dispatched [OF t] show d: "dispatched_of (events ?st) = items"
    unfolding eq by (simp add: await_all_inv)
  from assms show e: "executing ?st = []"
    unfolding eq by (rule await_all_empties)
  from executeWithConcurrency_items_inv [of fn sched items limit]
  show "mset (map Inr (pool_results ?st)) = mset (map fn items)"
    and "pool_results ?st = resolved_of fn (events ?st)"
    unfolding items_inv_def d e by auto
qed

text \<open>
  For every list of items, every work function, every schedule and every limit, the number
  of promises made and not yet settled is, after every prefix of the events of the call, at
  most \<open>N\<close>, for every integer \<open>N\<close> of at least 1 that is at or above the limit.
\<close>

lemma executeWithConcurrency_bounded:
  assumes "1 \<le> N" "limit \<le> of_int N"
  shows "bounded N (events (executeWithConcurrency sched items fn limit))"
  using executeWithConcurrency_limit_inv [OF assms, of sched items fn]
  by (simp add: limit_inv_def)

lemma executeWithConcurrency_quiet:
  assumes "thrown (executeWithConcurrency sched items fn limit) = None"
  shows "in_flight (events (executeWithConcurrency sched items fn limit)) = 0"
  using executeWithConcurrency_items_inv [of fn sched items limit]
    executeWithConcurrency_returns(2) [OF assms]
  by (simp add: items_inv_def pending_def)

lemmas pool_eval =
  executeWithConcurrency_def await_race_def await_all_def settle_def pending_def
  first_rejected_def List.map_filter_simps Let_def in_flight_def

subsection \<open>\<open>executeDAG\<close>\<close>

text \<open>
  The trace of a call: \<open>NodeStart\<close> and \<open>NodeComplete\<close> are the places where
  \<open>onNodeStart?.(node)\<close> and \<open>onNodeComplete?.(result)\<close> are evaluated, \<open>Invoke\<close> is the call
  \<open>processor(node)\<close>, \<open>Skip\<close> is the branch that returns the synthetic result, \<open>SetStop\<close> is
  the assignment \<open>shouldStop = true\<close>, and \<open>TaskSettled\<close> is the settling, resolved or
  rejected, of the promise of a task that invoked the processor. \<open>NodeStart\<close> and \<open>Invoke\<close>
  stand where the item is dispatched, \<open>TaskSettled\<close> and \<open>NodeComplete\<close> where the promise of
  its task settles. The callbacks are taken to return: one that throws rejects the task, as
  a processor that rejects does.
\<close>

datatype ('d, 'o) exec_event =
  NodeStart "'d DAGNode"
| Invoke "'d DAGNode"
| NodeComplete "('d, 'o) NodeResult"
| Skip "'d DAGNode"
| SetStop
| TaskSettled "'d DAGNode"

definition skipped :: "'d DAGNode \<Rightarrow> ('d, 'o) NodeResult" where
  "skipped n =
     \<lparr>node = n, success = False, error = Some ''Skipped due to earlier failure'', duration = 0,
      logs = [''Skipped due to earlier failure''], output_value = None\<rparr>"

text \<open>
  The task given to \<open>executeWithConcurrency\<close>. It reads \<open>shouldStop\<close> when it is called,
  which is when the item is dispatched. \<open>executeDAG\<close> writes \<open>shouldStop\<close> only in the loop
  after \<open>await executeWithConcurrency(...)\<close>, when no task of the level is left, so every
  task of a level reads the value the variable had when the level began.
\<close>

definition task ::
  "('d DAGNode \<Rightarrow> 'e + ('d, 'o) NodeResult) \<Rightarrow> bool \<Rightarrow> 'd DAGNode \<Rightarrow> 'e + ('d, 'o) NodeResult" where
  "task processor stop n = (if stop then Inr (skipped n) else processor n)"

fun level_trace ::
  "('d DAGNode \<Rightarrow> 'e + ('d, 'o) NodeResult) \<Rightarrow> bool \<Rightarrow> 'd DAGNode pool_event list
     \<Rightarrow> ('d, 'o) exec_event list" where
  "level_trace processor stop [] = []"
| "level_trace processor stop (Dispatched n # evs) =
     (if stop then [Skip n] else [NodeStart n, Invoke n]) @ level_trace processor stop evs"
| "level_trace processor stop (Settled n # evs) =
     (if stop then []
      else TaskSettled n # (case processor n of Inl e \<Rightarrow> [] | Inr r \<Rightarrow> [NodeComplete r]))
     @ level_trace processor stop evs"

record ('d, 'o) exec_state =
  results_acc :: "string \<rightharpoonup> ('d, 'o) NodeResult"
  failedNodes_acc :: "string list"
  shouldStop :: bool
  trace :: "('d, 'o) exec_event list"

text \<open>The body of \<open>for (const result of levelResults)\<close>.\<close>

definition record_result :: "bool \<Rightarrow> ('d, 'o) NodeResult \<Rightarrow> ('d, 'o) exec_state \<Rightarrow> ('d, 'o) exec_state" where
  "record_result failFast' result st =
     (let st1 = st\<lparr>results_acc := (results_acc st)(id_of (node result) \<mapsto> result)\<rparr>
      in if \<not> success result
         then (let st2 = st1\<lparr>failedNodes_acc := failedNodes_acc st1 @ [id_of (node result)]\<rparr>
               in if failFast' then st2\<lparr>shouldStop := True, trace := trace st2 @ [SetStop]\<rparr>
                  else st2)
         else st1)"

text \<open>
  The loop over the levels; every level takes the next schedule. A rejection of
  \<open>executeWithConcurrency\<close> ends the call (\<open>Some e\<close>).
\<close>

fun run_levels ::
  "('d DAGNode \<Rightarrow> 'e + ('d, 'o) NodeResult) \<Rightarrow> rat \<Rightarrow> bool \<Rightarrow> nat list list list
     \<Rightarrow> 'd DAGNode list list \<Rightarrow> ('d, 'o) exec_state \<Rightarrow> 'e option \<times> ('d, 'o) exec_state" where
  "run_levels processor limit failFast' sched [] st = (None, st)"
| "run_levels processor limit failFast' sched (lvl # rest) st =
     (if shouldStop st then (None, st)
      else (let pool = executeWithConcurrency (case sched of [] \<Rightarrow> [] | s # _ \<Rightarrow> s) lvl
                         (task processor (shouldStop st)) limit;
                st1 = st\<lparr>trace := trace st @ level_trace processor (shouldStop st) (events pool)\<rparr>
            in case thrown pool of
                 Some e \<Rightarrow> (Some e, st1)
               | None \<Rightarrow>
                   run_levels processor limit failFast' (tl sched) rest
                     (fold (record_result failFast') (pool_results pool) st1)))"

text \<open>The node objects of \<open>dag.levels\<close>, read through the map.\<close>

definition level_nodes :: "'d DependencyDAG \<Rightarrow> 'd DAGNode list list" where
  "level_nodes dag = map (List.map_filter (map_of (nodes dag))) (levels dag)"

record ('d, 'e, 'o) execution =
  outcome :: "'e + ('d, 'o) DAGResult"
  run_trace :: "('d, 'o) exec_event list"

text \<open>\<open>startTime\<close> and \<open>endTime\<close> are the two readings of \<open>Date.now()\<close>.\<close>

definition executeDAG ::
  "nat list list list \<Rightarrow> 'd DependencyDAG \<Rightarrow> ('d DAGNode \<Rightarrow> 'e + ('d, 'o) NodeResult)
     \<Rightarrow> DAGExecutionOptions \<Rightarrow> int \<Rightarrow> int \<Rightarrow> ('d, 'e, 'o) execution" where
  "executeDAG sched dag processor options startTime endTime =
     (case run_levels processor
             (case concurrency options of None \<Rightarrow> 4 | Some c \<Rightarrow> c)
             (case failFast options of None \<Rightarrow> True | Some b \<Rightarrow> b)
             sched (level_nodes dag)
             \<lparr>results_acc = Map.empty, failedNodes_acc = [], shouldStop = False, trace = []\<rparr> of
        (err, st) \<Rightarrow>
          \<lparr>outcome =
             (case err of
                Some e \<Rightarrow> Inl e
              | None \<Rightarrow> Inr \<lparr>dag_success = (failedNodes_acc st = []),
                              results = results_acc st,
                              failedNodes = failedNodes_acc st,
                              totalDuration = endTime - startTime\<rparr>),
           run_trace = trace st\<rparr>)"

definition executeDAGSequential ::
  "nat list list list \<Rightarrow> 'd DependencyDAG \<Rightarrow> ('d DAGNode \<Rightarrow> 'e + ('d, 'o) NodeResult)
     \<Rightarrow> DAGExecutionOptions \<Rightarrow> int \<Rightarrow> int \<Rightarrow> ('d, 'e, 'o) execution" where
  "executeDAGSequential sched dag processor options startTime endTime =
     executeDAG sched dag processor (options\<lparr>concurrency := Some 1\<rparr>) startTime endTime"

definition started_of :: "('d, 'o) exec_event list \<Rightarrow> 'd DAGNode list" where
  "started_of tr = List.map_filter (\<lambda>ev. case ev of NodeStart n \<Rightarrow> Some n | _ \<Rightarrow> None) tr"

definition invoked_of :: "('d, 'o) exec_event list \<Rightarrow> 'd DAGNode list" where
  "invoked_of tr = List.map_filter (\<lambda>ev. case ev of Invoke n \<Rightarrow> Some n | _ \<Rightarrow> None) tr"

definition completed_of :: "('d, 'o) exec_event list \<Rightarrow> ('d, 'o) NodeResult list" where
  "completed_of tr = List.map_filter (\<lambda>ev. case ev of NodeComplete r \<Rightarrow> Some r | _ \<Rightarrow> None) tr"

definition settled_of :: "('d, 'o) exec_event list \<Rightarrow> 'd DAGNode list" where
  "settled_of tr = List.map_filter (\<lambda>ev. case ev of TaskSettled n \<Rightarrow> Some n | _ \<Rightarrow> None) tr"

text \<open>The number of work invocations begun and not yet settled after a trace.\<close>

definition tasks_in_flight :: "('d, 'o) exec_event list \<Rightarrow> int" where
  "tasks_in_flight tr = int (length (invoked_of tr)) - int (length (settled_of tr))"

subsection \<open>The trace of a level\<close>

lemma started_of_simps [simp]:
  "started_of [] = []"
  "started_of (NodeStart n # tr) = n # started_of tr"
  "started_of (Invoke n # tr) = started_of tr"
  "started_of (NodeComplete r # tr) = started_of tr"
  "started_of (Skip n # tr) = started_of tr"
  "started_of (SetStop # tr) = started_of tr"
  "started_of (TaskSettled n # tr) = started_of tr"
  "started_of (replicate k SetStop) = []"
  "started_of (tr @ tr') = started_of tr @ started_of tr'"
  by (induction k) (simp_all add: started_of_def List.map_filter_simps map_filter_append)

lemma invoked_of_simps [simp]:
  "invoked_of [] = []"
  "invoked_of (NodeStart n # tr) = invoked_of tr"
  "invoked_of (Invoke n # tr) = n # invoked_of tr"
  "invoked_of (NodeComplete r # tr) = invoked_of tr"
  "invoked_of (Skip n # tr) = invoked_of tr"
  "invoked_of (SetStop # tr) = invoked_of tr"
  "invoked_of (TaskSettled n # tr) = invoked_of tr"
  "invoked_of (replicate k SetStop) = []"
  "invoked_of (tr @ tr') = invoked_of tr @ invoked_of tr'"
  by (induction k) (simp_all add: invoked_of_def List.map_filter_simps map_filter_append)

lemma completed_of_simps [simp]:
  "completed_of [] = []"
  "completed_of (NodeStart n # tr) = completed_of tr"
  "completed_of (Invoke n # tr) = completed_of tr"
  "completed_of (NodeComplete r # tr) = r # completed_of tr"
  "completed_of (Skip n # tr) = completed_of tr"
  "completed_of (SetStop # tr) = completed_of tr"
  "completed_of (TaskSettled n # tr) = completed_of tr"
  "completed_of (replicate k SetStop) = []"
  "completed_of (tr @ tr') = completed_of tr @ completed_of tr'"
  by (induction k) (simp_all add: completed_of_def List.map_filter_simps map_filter_append)

lemma settled_of_simps [simp]:
  "settled_of [] = []"
  "settled_of (NodeStart n # tr) = settled_of tr"
  "settled_of (Invoke n # tr) = settled_of tr"
  "settled_of (NodeComplete r # tr) = settled_of tr"
  "settled_of (Skip n # tr) = settled_of tr"
  "settled_of (SetStop # tr) = settled_of tr"
  "settled_of (TaskSettled n # tr) = n # settled_of tr"
  "settled_of (replicate k SetStop) = []"
  "settled_of (tr @ tr') = settled_of tr @ settled_of tr'"
  by (induction k) (simp_all add: settled_of_def List.map_filter_simps map_filter_append)

lemma level_trace_running:
  "started_of (level_trace processor False evs) = dispatched_of evs"
  "invoked_of (level_trace processor False evs) = dispatched_of evs"
  "completed_of (level_trace processor False evs) = resolved_of processor evs"
  "Skip n \<notin> set (level_trace processor False evs)"
  "SetStop \<notin> set (level_trace processor False evs)"
proof (induction evs)
  case Nil
  {
    case 1 show ?case by simp
  next
    case 2 show ?case by simp
  next
    case 3 show ?case by simp
  next
    case 4 show ?case by simp
  next
    case 5 show ?case by simp
  }
next
  case (Cons ev evs)
  {
    case 1
    show ?case
      by (cases ev) (auto simp: Cons.IH(1) dispatched_of_def List.map_filter_simps split: sum.splits)
  next
    case 2
    show ?case
      by (cases ev) (auto simp: Cons.IH(2) dispatched_of_def List.map_filter_simps split: sum.splits)
  next
    case 3
    show ?case
      by (cases ev) (auto simp: Cons.IH(3) resolved_of_def List.map_filter_simps split: sum.splits)
  next
    case 4
    show ?case
      using Cons.IH(4) by (cases ev) (auto split: sum.splits)
  next
    case 5
    show ?case
      using Cons.IH(5) by (cases ev) (auto split: sum.splits)
  }
qed

subsection \<open>Recording the results of a level\<close>

lemma record_result_fields:
  "trace (record_result f r st) = trace st @ replicate (if f \<and> \<not> success r then 1 else 0) SetStop"
  "results_acc (record_result f r st) = (results_acc st)(id_of (node r) \<mapsto> r)"
  "failedNodes_acc (record_result f r st)
     = failedNodes_acc st @ (if success r then [] else [id_of (node r)])"
  "shouldStop (record_result f r st) = (shouldStop st \<or> (f \<and> \<not> success r))"
  by (simp_all add: record_result_def Let_def)

lemma fold_record_result:
  "trace (fold (record_result f) rs st)
     = trace st @ replicate (if f then length (filter (\<lambda>r. \<not> success r) rs) else 0) SetStop"
  "results_acc (fold (record_result f) rs st)
     = fold (\<lambda>r m. m(id_of (node r) \<mapsto> r)) rs (results_acc st)"
  "failedNodes_acc (fold (record_result f) rs st)
     = failedNodes_acc st @ map (\<lambda>r. id_of (node r)) (filter (\<lambda>r. \<not> success r) rs)"
  "shouldStop (fold (record_result f) rs st)
     = (shouldStop st \<or> (f \<and> (\<exists>r \<in> set rs. \<not> success r)))"
  by (induction rs arbitrary: st; auto simp: record_result_fields)+

subsection \<open>The loop over the levels\<close>

lemma task_running [simp]: "task processor False = processor"
  by (rule ext) (simp add: task_def)

text \<open>What a call that returns has done: it ran the first \<open>k\<close> levels, adding \<open>T\<close> to the trace.\<close>

definition ran_levels ::
  "('d DAGNode \<Rightarrow> 'e + ('d, 'o) NodeResult) \<Rightarrow> 'd DAGNode list list
     \<Rightarrow> ('d, 'o) exec_state \<Rightarrow> ('d, 'o) exec_state \<Rightarrow> nat \<Rightarrow> ('d, 'o) exec_event list \<Rightarrow> bool" where
  "ran_levels processor lv st0 st k T \<longleftrightarrow>
     k \<le> length lv
   \<and> trace st = trace st0 @ T
   \<and> started_of T = concat (take k lv)
   \<and> invoked_of T = concat (take k lv)
   \<and> (\<exists>rss. completed_of T = concat rss
          \<and> list_all2 (\<lambda>rs lvl. mset (map Inr rs) = mset (map processor lvl)) rss (take k lv))
   \<and> failedNodes_acc st
       = failedNodes_acc st0 @ map (\<lambda>r. id_of (node r)) (filter (\<lambda>r. \<not> success r) (completed_of T))
   \<and> results_acc st = fold (\<lambda>r m. m(id_of (node r) \<mapsto> r)) (completed_of T) (results_acc st0)"

lemma run_levels_ran:
  "run_levels processor limit f sched lv st0 = (None, st) \<Longrightarrow> \<exists>k T. ran_levels processor lv st0 st k T"
proof (induction processor limit f sched lv st0 rule: run_levels.induct)
  case (1 processor limit f sched st0)
  then have "ran_levels processor [] st0 st 0 []" by (simp add: ran_levels_def)
  then show ?case by blast
next
  case (2 processor limit f sched lvl rest st0)
  show ?case
  proof (cases "shouldStop st0")
    case True
    with "2.prems" have "ran_levels processor (lvl # rest) st0 st 0 []" by (simp add: ran_levels_def)
    then show ?thesis by blast
  next
    case False
    then have ss: "shouldStop st0 = False" by simp
    let ?pool = "executeWithConcurrency (case sched of [] \<Rightarrow> [] | s # _ \<Rightarrow> s) lvl processor limit"
    let ?L = "level_trace processor False (events ?pool)"
    let ?st1 = "st0\<lparr>trace := trace st0 @ ?L\<rparr>"
    let ?st2 = "fold (record_result f) (pool_results ?pool) ?st1"
    from "2.prems" False have t: "thrown ?pool = None"
      by (auto simp: Let_def split: option.splits)
    with "2.prems" False have run: "run_levels processor limit f (tl sched) rest ?st2 = (None, st)"
      by (simp add: Let_def)
    note ret = executeWithConcurrency_returns [OF t]
    have "\<exists>k T. ran_levels processor rest ?st2 st k T"
      using "2.IH" [OF False refl refl, unfolded ss task_running, OF t run] .
    then obtain k T where r: "ran_levels processor rest ?st2 st k T" by blast
    have L: "started_of ?L = lvl" "invoked_of ?L = lvl" "completed_of ?L = pool_results ?pool"
      by (simp_all add: level_trace_running ret(1) ret(4))
    let ?S = "replicate (if f then length (filter (\<lambda>r. \<not> success r) (pool_results ?pool)) else 0)
                SetStop"
    have "ran_levels processor (lvl # rest) st0 st (Suc k) (?L @ ?S @ T)"
      unfolding ran_levels_def
    proof (intro conjI)
      show "Suc k \<le> length (lvl # rest)" using r by (simp add: ran_levels_def)
      show "trace st = trace st0 @ ?L @ ?S @ T"
        using r by (simp add: ran_levels_def fold_record_result)
      show "started_of (?L @ ?S @ T) = concat (take (Suc k) (lvl # rest))"
        using r L by (simp add: ran_levels_def)
      show "invoked_of (?L @ ?S @ T) = concat (take (Suc k) (lvl # rest))"
        using r L by (simp add: ran_levels_def)
      from r obtain rss where rss: "completed_of T = concat rss"
        "list_all2 (\<lambda>rs lvl. mset (map Inr rs) = mset (map processor lvl)) rss (take k rest)"
        unfolding ran_levels_def by blast
      have "completed_of (?L @ ?S @ T) = concat (pool_results ?pool # rss)"
        by (simp add: L(3) rss(1))
      moreover have "list_all2 (\<lambda>rs lvl. mset (map Inr rs) = mset (map processor lvl))
                       (pool_results ?pool # rss) (take (Suc k) (lvl # rest))"
        using rss(2) ret(3) by simp
      ultimately show "\<exists>rss. completed_of (?L @ ?S @ T) = concat rss
          \<and> list_all2 (\<lambda>rs lvl. mset (map Inr rs) = mset (map processor lvl)) rss
                (take (Suc k) (lvl # rest))"
        by blast
      show "failedNodes_acc st
              = failedNodes_acc st0
                @ map (\<lambda>r. id_of (node r)) (filter (\<lambda>r. \<not> success r) (completed_of (?L @ ?S @ T)))"
        using r by (simp add: ran_levels_def fold_record_result L(3))
      show "results_acc st
              = fold (\<lambda>r m. m(id_of (node r) \<mapsto> r)) (completed_of (?L @ ?S @ T)) (results_acc st0)"
        using r by (simp add: ran_levels_def fold_record_result L(3))
    qed
    then show ?thesis by blast
  qed
qed

lemma run_levels_no_skip:
  "run_levels processor limit f sched lv st0 = (err, st) \<Longrightarrow> Skip n \<notin> set (trace st0)
     \<Longrightarrow> Skip n \<notin> set (trace st)"
proof (induction processor limit f sched lv st0 rule: run_levels.induct)
  case (1 processor limit f sched st0)
  then show ?case by simp
next
  case (2 processor limit f sched lvl rest st0)
  show ?case
  proof (cases "shouldStop st0")
    case True
    with "2.prems" show ?thesis by simp
  next
    case False
    then have ss: "shouldStop st0 = False" by simp
    let ?pool = "executeWithConcurrency (case sched of [] \<Rightarrow> [] | s # _ \<Rightarrow> s) lvl processor limit"
    let ?L = "level_trace processor False (events ?pool)"
    let ?st1 = "st0\<lparr>trace := trace st0 @ ?L\<rparr>"
    let ?st2 = "fold (record_result f) (pool_results ?pool) ?st1"
    have s1: "Skip n \<notin> set (trace ?st1)"
      using "2.prems"(2) by (simp add: level_trace_running)
    show ?thesis
    proof (cases "thrown ?pool")
      case None
      with "2.prems"(1) False
      have run: "run_levels processor limit f (tl sched) rest ?st2 = (err, st)"
        by (simp add: Let_def)
      have "Skip n \<notin> set (trace ?st2)" using s1 by (simp add: fold_record_result)
      with "2.IH" [OF False refl refl, unfolded ss task_running, OF None run] show ?thesis .
    next
      case (Some e)
      with "2.prems"(1) False have "st = ?st1" by (simp add: Let_def)
      with s1 show ?thesis by simp
    qed
  qed
qed

lemma run_levels_stopped_append:
  "run_levels processor limit f sched lv st0 = (err, st) \<Longrightarrow> err \<noteq> None \<or> shouldStop st
     \<Longrightarrow> run_levels processor limit f sched (lv @ later) st0 = (err, st)"
proof (induction processor limit f sched lv st0 rule: run_levels.induct)
  case (1 processor limit f sched st0)
  then show ?case by (cases later) auto
next
  case (2 processor limit f sched lvl rest st0)
  show ?case
  proof (cases "shouldStop st0")
    case True
    with "2.prems" show ?thesis by simp
  next
    case False
    then have ss: "shouldStop st0 = False" by simp
    let ?pool = "executeWithConcurrency (case sched of [] \<Rightarrow> [] | s # _ \<Rightarrow> s) lvl processor limit"
    let ?L = "level_trace processor False (events ?pool)"
    let ?st1 = "st0\<lparr>trace := trace st0 @ ?L\<rparr>"
    let ?st2 = "fold (record_result f) (pool_results ?pool) ?st1"
    show ?thesis
    proof (cases "thrown ?pool")
      case None
      with "2.prems"(1) False
      have run: "run_levels processor limit f (tl sched) rest ?st2 = (err, st)"
        by (simp add: Let_def)
      from "2.IH" [OF False refl refl, unfolded ss task_running, OF None run "2.prems"(2)]
      have "run_levels processor limit f (tl sched) (rest @ later) ?st2 = (err, st)" .
      with None False show ?thesis by (simp add: Let_def)
    next
      case (Some e)
      with "2.prems"(1) False have "err = Some e" "st = ?st1" by (auto simp: Let_def)
      with Some False show ?thesis by (simp add: Let_def)
    qed
  qed
qed

lemma run_levels_fail_fast_stops:
  "run_levels processor limit True sched lv st0 = (err, st)
     \<Longrightarrow> (failedNodes_acc st0 \<noteq> [] \<longrightarrow> shouldStop st0)
     \<Longrightarrow> (failedNodes_acc st \<noteq> [] \<longrightarrow> shouldStop st)"
proof (induction processor limit "True" sched lv st0 rule: run_levels.induct)
  case (1 processor limit sched st0)
  then show ?case by simp
next
  case (2 processor limit sched lvl rest st0)
  show ?case
  proof (cases "shouldStop st0")
    case True
    with "2.prems" show ?thesis by simp
  next
    case False
    then have ss: "shouldStop st0 = False" by simp
    let ?pool = "executeWithConcurrency (case sched of [] \<Rightarrow> [] | s # _ \<Rightarrow> s) lvl processor limit"
    let ?L = "level_trace processor False (events ?pool)"
    let ?st1 = "st0\<lparr>trace := trace st0 @ ?L\<rparr>"
    let ?st2 = "fold (record_result True) (pool_results ?pool) ?st1"
    from False "2.prems"(2) have nofail: "failedNodes_acc st0 = []" by blast
    show ?thesis
    proof (cases "thrown ?pool")
      case None
      with "2.prems"(1) False
      have run: "run_levels processor limit True (tl sched) rest ?st2 = (err, st)"
        by (simp add: Let_def)
      have "failedNodes_acc ?st2 \<noteq> [] \<longrightarrow> shouldStop ?st2"
        using nofail by (auto simp: fold_record_result filter_empty_conv)
      with "2.hyps" [OF False refl refl, unfolded ss task_running, OF None run] show ?thesis .
    next
      case (Some e)
      with "2.prems"(1) False have "st = ?st1" by (simp add: Let_def)
      with nofail show ?thesis by simp
    qed
  qed
qed

subsection \<open>Where the stop flag is written\<close>

text \<open>
  \<open>stops_quiet i c tr\<close>: after \<open>i\<close> invocations and \<open>c\<close> completions, every \<open>SetStop\<close> of
  \<open>tr\<close> stands where as many invocations have completed as have begun.
\<close>

fun stops_quiet :: "nat \<Rightarrow> nat \<Rightarrow> ('d, 'o) exec_event list \<Rightarrow> bool" where
  "stops_quiet i c [] = True"
| "stops_quiet i c (Invoke n # tr) = stops_quiet (Suc i) c tr"
| "stops_quiet i c (NodeComplete r # tr) = stops_quiet i (Suc c) tr"
| "stops_quiet i c (SetStop # tr) = (i = c \<and> stops_quiet i c tr)"
| "stops_quiet i c (NodeStart n # tr) = stops_quiet i c tr"
| "stops_quiet i c (Skip n # tr) = stops_quiet i c tr"
| "stops_quiet i c (TaskSettled n # tr) = stops_quiet i c tr"

lemma stops_quiet_append:
  "stops_quiet i c (A @ B)
     = (stops_quiet i c A
        \<and> stops_quiet (i + length (invoked_of A)) (c + length (completed_of A)) B)"
  by (induction i c A rule: stops_quiet.induct) simp_all

lemma stops_quiet_no_stop: "SetStop \<notin> set tr \<Longrightarrow> stops_quiet i c tr"
  by (induction i c tr rule: stops_quiet.induct) simp_all

lemma stops_quiet_replicate: "stops_quiet i c (replicate k SetStop) = (k = 0 \<or> i = c)"
  by (induction k) auto

lemma stops_quiet_prefix:
  "stops_quiet i c (p @ SetStop # s) \<Longrightarrow> i + length (invoked_of p) = c + length (completed_of p)"
  by (simp add: stops_quiet_append)

lemma run_levels_stops_quiet:
  "run_levels processor limit f sched lv st0 = (err, st)
     \<Longrightarrow> stops_quiet 0 0 (trace st0)
     \<Longrightarrow> length (invoked_of (trace st0)) = length (completed_of (trace st0))
     \<Longrightarrow> stops_quiet 0 0 (trace st)"
proof (induction processor limit f sched lv st0 rule: run_levels.induct)
  case (1 processor limit f sched st0)
  then show ?case by simp
next
  case (2 processor limit f sched lvl rest st0)
  show ?case
  proof (cases "shouldStop st0")
    case True
    with "2.prems" show ?thesis by simp
  next
    case False
    then have ss: "shouldStop st0 = False" by simp
    let ?pool = "executeWithConcurrency (case sched of [] \<Rightarrow> [] | s # _ \<Rightarrow> s) lvl processor limit"
    let ?L = "level_trace processor False (events ?pool)"
    let ?st1 = "st0\<lparr>trace := trace st0 @ ?L\<rparr>"
    let ?st2 = "fold (record_result f) (pool_results ?pool) ?st1"
    have q1: "stops_quiet 0 0 (trace ?st1)"
      using "2.prems"(2) by (simp add: stops_quiet_append stops_quiet_no_stop level_trace_running)
    show ?thesis
    proof (cases "thrown ?pool")
      case None
      with "2.prems"(1) False
      have run: "run_levels processor limit f (tl sched) rest ?st2 = (err, st)"
        by (simp add: Let_def)
      note ret = executeWithConcurrency_returns [OF None]
      from arg_cong [where f = size, OF ret(3)] have len: "length (pool_results ?pool) = length lvl" by simp
      have L: "invoked_of ?L = lvl" "completed_of ?L = pool_results ?pool"
        by (simp_all add: level_trace_running ret(1) ret(4))
      have b2: "length (invoked_of (trace ?st2)) = length (completed_of (trace ?st2))"
        using "2.prems"(3) by (simp add: fold_record_result L len)
      have q2: "stops_quiet 0 0 (trace ?st2)"
        using q1 "2.prems"(3)
        by (simp add: fold_record_result stops_quiet_append stops_quiet_replicate L len)
      from "2.IH" [OF False refl refl, unfolded ss task_running, OF None run q2 b2]
      show ?thesis .
    next
      case (Some e)
      with "2.prems"(1) False have "st = ?st1" by (simp add: Let_def)
      with q1 show ?thesis by simp
    qed
  qed
qed

subsection \<open>The results map\<close>

lemma fold_upd_other:
  "k \<notin> key ` set rs \<Longrightarrow> fold (\<lambda>r m. m(key r \<mapsto> r)) rs m0 k = m0 k"
  by (induction rs arbitrary: m0) auto

lemma fold_upd_lookup:
  "distinct (map key rs) \<Longrightarrow> r \<in> set rs \<Longrightarrow> fold (\<lambda>r m. m(key r \<mapsto> r)) rs m0 (key r) = Some r"
proof (induction rs arbitrary: m0)
  case Nil
  then show ?case by simp
next
  case (Cons x rs)
  show ?case
  proof (cases "r \<in> set rs")
    case True
    with Cons show ?thesis by simp
  next
    case False
    with Cons.prems have rx: "r = x" and k: "key x \<notin> key ` set rs" by auto
    have "fold (\<lambda>r m. m(key r \<mapsto> r)) (x # rs) m0 (key x)
            = fold (\<lambda>r m. m(key r \<mapsto> r)) rs (m0(key x \<mapsto> x)) (key x)"
      by simp
    also from k have "\<dots> = (m0(key x \<mapsto> x)) (key x)" by (rule fold_upd_other)
    also have "\<dots> = Some x" by simp
    finally show ?thesis unfolding rx .
  qed
qed

lemma fold_upd_ran:
  "v \<in> ran (fold (\<lambda>r m. m(key r \<mapsto> r)) rs m0) \<Longrightarrow> v \<in> ran m0 \<or> v \<in> set rs"
proof (induction rs arbitrary: m0)
  case Nil
  then show ?case by simp
next
  case (Cons x rs)
  have "fold (\<lambda>r m. m(key r \<mapsto> r)) (x # rs) m0
          = fold (\<lambda>r m. m(key r \<mapsto> r)) rs (m0(key x \<mapsto> x))"
    by simp
  with Cons.prems have "v \<in> ran (fold (\<lambda>r m. m(key r \<mapsto> r)) rs (m0(key x \<mapsto> x)))"
    by (simp only:)
  from Cons.IH [OF this]
  have "v \<in> ran (m0(key x \<mapsto> x)) \<or> v \<in> set rs" .
  then show ?case by (auto simp: ran_def split: if_splits)
qed

lemma levels_results:
  assumes "list_all2 (\<lambda>rs lvl. mset (map Inr rs) = mset (map processor lvl)) rss lvs"
  shows "mset (map Inr (concat rss)) = mset (map processor (concat lvs))"
  using assms by (induction rule: list_all2_induct) simp_all

lemma results_of_items:
  fixes processor :: "'d DAGNode \<Rightarrow> 'e + ('d, 'o) NodeResult"
  assumes m: "mset (map Inr rs) = mset (map processor items)"
  shows "\<And>n. n \<in> set items \<Longrightarrow> \<exists>r \<in> set rs. processor n = Inr r"
    and "\<And>r. r \<in> set rs \<Longrightarrow> \<exists>n \<in> set items. processor n = Inr r"
proof -
  show "\<exists>r \<in> set rs. processor n = Inr r" if "n \<in> set items" for n
  proof -
    from that have "processor n \<in># mset (map processor items)" by simp
    then have "processor n \<in># mset (map Inr rs)" by (simp only: m)
    then show ?thesis by auto
  qed
  show "\<exists>n \<in> set items. processor n = Inr r" if "r \<in> set rs" for r
  proof -
    from that have "(Inr r :: 'e + ('d, 'o) NodeResult) \<in># mset (map Inr rs)" by simp
    then have "Inr r \<in># mset (map processor items)" by (simp only: m)
    then show ?thesis by auto
  qed
qed

text \<open>The identifiers recorded, when the processor answers for the node it was given.\<close>

lemma result_ids:
  fixes processor :: "'d DAGNode \<Rightarrow> 'e + ('d, 'o) NodeResult"
  assumes m: "mset (map Inr rs) = mset (map processor items)"
    and wf: "\<forall>n r. processor n = Inr r \<longrightarrow> node r = n"
  shows "mset (map (\<lambda>r. id_of (node r)) rs) = mset (map id_of items)"
proof -
  let ?g = "\<lambda>x :: 'e + ('d, 'o) NodeResult. case x of Inl e \<Rightarrow> [] | Inr r \<Rightarrow> id_of (node r)"
  have "image_mset ?g (mset (map Inr rs)) = image_mset ?g (mset (map processor items))"
    by (simp only: m)
  then have "mset (map (\<lambda>r. id_of (node r)) rs) = mset (map (\<lambda>n. ?g (processor n)) items)"
    by (simp add: multiset.map_comp comp_def)
  moreover have "map (\<lambda>n. ?g (processor n)) items = map id_of items"
  proof (rule map_cong [OF refl])
    fix n assume "n \<in> set items"
    from results_of_items(1) [OF m this] obtain r where "processor n = Inr r" by blast
    with wf show "?g (processor n) = id_of n" by simp
  qed
  ultimately show ?thesis by simp
qed

lemma recorded_entries:
  fixes processor :: "'d DAGNode \<Rightarrow> 'e + ('d, 'o) NodeResult"
  assumes m: "mset (map Inr rs) = mset (map processor items)"
    and wf: "\<forall>n r. processor n = Inr r \<longrightarrow> node r = n"
    and d: "distinct (map id_of items)"
  shows "\<And>n. n \<in> set items \<Longrightarrow>
           \<exists>r. processor n = Inr r
             \<and> fold (\<lambda>r m. m(id_of (node r) \<mapsto> r)) rs Map.empty (id_of n) = Some r"
    and "\<And>x. x \<notin> id_of ` set items \<Longrightarrow>
           fold (\<lambda>r m. m(id_of (node r) \<mapsto> r)) rs Map.empty x = None"
proof -
  note roi = results_of_items [OF m]
  note ids = result_ids [OF m wf]
  from ids d have dr: "distinct (map (\<lambda>r. id_of (node r)) rs)"
    by (metis mset_eq_imp_distinct_iff)
  show "\<exists>r. processor n = Inr r
          \<and> fold (\<lambda>r m. m(id_of (node r) \<mapsto> r)) rs Map.empty (id_of n) = Some r"
    if "n \<in> set items" for n
  proof -
    from roi(1) [OF that] obtain r where r: "r \<in> set rs" "processor n = Inr r" by blast
    from wf r(2) have "node r = n" by blast
    with fold_upd_lookup [OF dr r(1), of Map.empty] r(2) show ?thesis by auto
  qed
  show "fold (\<lambda>r m. m(id_of (node r) \<mapsto> r)) rs Map.empty x = None"
    if "x \<notin> id_of ` set items" for x
  proof -
    from ids have "set (map (\<lambda>r. id_of (node r)) rs) = set (map id_of items)"
      by (rule mset_eq_setD)
    with that have "x \<notin> (\<lambda>r. id_of (node r)) ` set rs" by simp
    then show ?thesis by (simp add: fold_upd_other)
  qed
qed

subsection \<open>What \<open>executeDAG\<close> returns\<close>

definition init_exec :: "('d, 'o) exec_state" where
  "init_exec = \<lparr>results_acc = Map.empty, failedNodes_acc = [], shouldStop = False, trace = []\<rparr>"

lemma executeDAG_eq:
  "executeDAG sched dag processor options startTime endTime =
     (let r = run_levels processor
                (case concurrency options of None \<Rightarrow> 4 | Some c \<Rightarrow> c)
                (case failFast options of None \<Rightarrow> True | Some b \<Rightarrow> b)
                sched (level_nodes dag) init_exec
      in \<lparr>outcome =
            (case fst r of
               Some e \<Rightarrow> Inl e
             | None \<Rightarrow> Inr \<lparr>dag_success = (failedNodes_acc (snd r) = []),
                             results = results_acc (snd r),
                             failedNodes = failedNodes_acc (snd r),
                             totalDuration = endTime - startTime\<rparr>),
          run_trace = trace (snd r)\<rparr>)"
  by (simp add: executeDAG_def init_exec_def Let_def case_prod_beta)

lemma executeDAG_returned:
  assumes "outcome (executeDAG sched dag processor options startTime endTime) = Inr res"
  obtains st k T where
    "run_levels processor
       (case concurrency options of None \<Rightarrow> 4 | Some c \<Rightarrow> c)
       (case failFast options of None \<Rightarrow> True | Some b \<Rightarrow> b)
       sched (level_nodes dag) init_exec = (None, st)"
    "ran_levels processor (level_nodes dag) init_exec st k T"
    "res = \<lparr>dag_success = (failedNodes_acc st = []), results = results_acc st,
            failedNodes = failedNodes_acc st, totalDuration = endTime - startTime\<rparr>"
    "run_trace (executeDAG sched dag processor options startTime endTime) = T"
proof -
  let ?r = "run_levels processor
       (case concurrency options of None \<Rightarrow> 4 | Some c \<Rightarrow> c)
       (case failFast options of None \<Rightarrow> True | Some b \<Rightarrow> b)
       sched (level_nodes dag) init_exec"
  from assms have f: "fst ?r = None"
    and res: "res = \<lparr>dag_success = (failedNodes_acc (snd ?r) = []), results = results_acc (snd ?r),
            failedNodes = failedNodes_acc (snd ?r), totalDuration = endTime - startTime\<rparr>"
    by (auto simp: executeDAG_eq Let_def split: option.splits)
  from f have run: "?r = (None, snd ?r)" by (metis prod.collapse)
  from run_levels_ran [OF run] obtain k T where r: "ran_levels processor (level_nodes dag) init_exec (snd ?r) k T"
    by blast
  then have "trace (snd ?r) = T" by (simp add: ran_levels_def init_exec_def)
  then have "run_trace (executeDAG sched dag processor options startTime endTime) = T"
    by (simp add: executeDAG_eq Let_def)
  with run r res show thesis by (rule that)
qed

subsection \<open>The levels of a graph cut after \<open>k\<close> levels\<close>

lemma level_nodes_take:
  "level_nodes (dag\<lparr>levels := take k (levels dag)\<rparr>) = take k (level_nodes dag)"
  by (simp add: level_nodes_def take_map)

lemma concat_take_drop: "concat (take k xs) @ concat (drop k xs) = concat xs"
  by (metis append_take_drop_id concat_append)

lemma take_take_le: "j \<le> length (take k xs) \<Longrightarrow> take j (take k xs) = take j xs"
  by (auto simp: min_def split: if_splits)

lemma distinct_ids_split:
  assumes "distinct (map f (concat xs))"
  shows "distinct (map f (concat (take k xs)))"
    and "\<And>n. n \<in> set (concat (drop k xs)) \<Longrightarrow> f n \<notin> f ` set (concat (take k xs))"
proof -
  from assms have d: "distinct (map f (concat (take k xs)) @ map f (concat (drop k xs)))"
    by (simp only: map_append [symmetric] concat_take_drop)
  then show "distinct (map f (concat (take k xs)))" by simp
  show "f n \<notin> f ` set (concat (take k xs))" if "n \<in> set (concat (drop k xs))" for n
  proof -
    from that have "f n \<in> set (map f (concat (drop k xs)))" by simp
    with d have "f n \<notin> set (map f (concat (take k xs)))" by (simp only: distinct_append) blast
    then show ?thesis by simp
  qed
qed

text \<open>What the results map holds after the first \<open>k\<close> levels ran.\<close>

lemma ran_levels_results:
  fixes processor :: "'d DAGNode \<Rightarrow> 'e + ('d, 'o) NodeResult"
  assumes r: "ran_levels processor lv init_exec st k T"
    and wf: "\<forall>n r. processor n = Inr r \<longrightarrow> node r = n"
    and d: "distinct (map id_of (concat lv))"
  shows "\<And>n. n \<in> set (concat (take k lv)) \<Longrightarrow>
           \<exists>r. processor n = Inr r \<and> results_acc st (id_of n) = Some r"
    and "\<And>n. n \<in> set (concat (drop k lv)) \<Longrightarrow> results_acc st (id_of n) = None"
proof -
  from r obtain rss where rss: "completed_of T = concat rss"
    "list_all2 (\<lambda>rs lvl. mset (map Inr rs) = mset (map processor lvl)) rss (take k lv)"
    unfolding ran_levels_def by blast
  from r have res: "results_acc st = fold (\<lambda>r m. m(id_of (node r) \<mapsto> r)) (completed_of T) Map.empty"
    unfolding ran_levels_def init_exec_def by simp
  from levels_results [OF rss(2)] rss(1)
  have m: "mset (map Inr (completed_of T)) = mset (map processor (concat (take k lv)))" by simp
  note ds = distinct_ids_split [OF d, where k = k]
  note re = recorded_entries [OF m wf ds(1)]
  show "\<exists>r. processor n = Inr r \<and> results_acc st (id_of n) = Some r"
    if "n \<in> set (concat (take k lv))" for n
    using re(1) [OF that] unfolding res .
  show "results_acc st (id_of n) = None" if "n \<in> set (concat (drop k lv))" for n
    using re(2) [OF ds(2) [OF that]] unfolding res .
qed

lemma ran_levels_returned:
  fixes processor :: "'d DAGNode \<Rightarrow> 'e + ('d, 'o) NodeResult"
  assumes r: "ran_levels processor lv init_exec st k T"
    and v: "v \<in> ran (results_acc st)"
  shows "\<exists>n \<in> set (concat (take k lv)). processor n = Inr v"
proof -
  from r obtain rss where rss: "completed_of T = concat rss"
    "list_all2 (\<lambda>rs lvl. mset (map Inr rs) = mset (map processor lvl)) rss (take k lv)"
    unfolding ran_levels_def by blast
  from r have res: "results_acc st = fold (\<lambda>r m. m(id_of (node r) \<mapsto> r)) (completed_of T) Map.empty"
    unfolding ran_levels_def init_exec_def by simp
  from levels_results [OF rss(2)] rss(1)
  have m: "mset (map Inr (completed_of T)) = mset (map processor (concat (take k lv)))" by simp
  from v fold_upd_ran [of v "\<lambda>r. id_of (node r)" "completed_of T" Map.empty]
  have "v \<in> set (completed_of T)" unfolding res by simp
  from results_of_items(2) [OF m this] show ?thesis .
qed

subsection \<open>A diamond: \<open>d\<close> depends on \<open>b\<close> and \<open>c\<close>, which depend on \<open>a\<close>\<close>

definition diamond_map :: "unit node_map" where
  "diamond_map =
     [(''a'', \<lparr>id_of = ''a'', dependencies = [], level = None, data = None\<rparr>),
      (''b'', \<lparr>id_of = ''b'', dependencies = [''a''], level = None, data = None\<rparr>),
      (''c'', \<lparr>id_of = ''c'', dependencies = [''a''], level = None, data = None\<rparr>),
      (''d'', \<lparr>id_of = ''d'', dependencies = [''b'', ''c''], level = None, data = None\<rparr>)]"

definition diamond_node :: "string \<Rightarrow> string list \<Rightarrow> nat \<Rightarrow> unit DAGNode" where
  "diamond_node i ds l = \<lparr>id_of = i, dependencies = ds, level = Some l, data = None\<rparr>"

definition diamond_dag :: "unit DependencyDAG" where
  "diamond_dag =
     \<lparr>nodes =
        [(''a'', diamond_node ''a'' [] 0),
         (''b'', diamond_node ''b'' [''a''] 1),
         (''c'', diamond_node ''c'' [''a''] 1),
         (''d'', diamond_node ''d'' [''b'', ''c''] 2)],
      levels = [[''a''], [''b'', ''c''], [''d'']], roots = [''d''], leaves = [''a'']\<rparr>"

lemma diamond_build: "buildLeveledDAG diamond_map = Inr diamond_dag"
  by (simp add: diamond_map_def diamond_dag_def diamond_node_def kahn_eval)

lemma diamond_levels:
  "level_nodes diamond_dag =
     [[diamond_node ''a'' [] 0],
      [diamond_node ''b'' [''a''] 1, diamond_node ''c'' [''a''] 1],
      [diamond_node ''d'' [''b'', ''c''] 2]]"
  by (simp add: level_nodes_def diamond_dag_def List.map_filter_simps)

text \<open>A processor whose result for the node \<open>x\<close> is unsuccessful, and one that rejects there.\<close>

definition result_of :: "bool \<Rightarrow> unit DAGNode \<Rightarrow> (unit, unit) NodeResult" where
  "result_of ok n =
     \<lparr>node = n, success = ok, error = (if ok then None else Some ''boom''), duration = 1,
      logs = [], output_value = None\<rparr>"

definition fails_at :: "string \<Rightarrow> unit DAGNode \<Rightarrow> string + (unit, unit) NodeResult" where
  "fails_at x n = Inr (result_of (id_of n \<noteq> x) n)"

definition rejects_at :: "string \<Rightarrow> unit DAGNode \<Rightarrow> string + (unit, unit) NodeResult" where
  "rejects_at x n = (if id_of n = x then Inl ''boom'' else Inr (result_of True n))"

text \<open>A processor that answers for the node \<open>other\<close> whatever it is given.\<close>

definition answers_for :: "unit DAGNode \<Rightarrow> unit DAGNode \<Rightarrow> string + (unit, unit) NodeResult" where
  "answers_for other n = Inr (result_of False other)"

definition default_options :: DAGExecutionOptions where
  "default_options = \<lparr>concurrency = None, failFast = None\<rparr>"

text \<open>
  The run of the diamond under the default options when \<open>b\<close> fails and, in the second level,
  \<open>c\<close> settles before \<open>b\<close>.
\<close>

definition diamond_result :: "(unit, unit) DAGResult" where
  "diamond_result =
     \<lparr>dag_success = False,
      results =
        [''a'' \<mapsto> result_of True (diamond_node ''a'' [] 0),
         ''c'' \<mapsto> result_of True (diamond_node ''c'' [''a''] 1),
         ''b'' \<mapsto> result_of False (diamond_node ''b'' [''a''] 1)],
      failedNodes = [''b''], totalDuration = 7\<rparr>"

definition diamond_trace :: "(unit, unit) exec_event list" where
  "diamond_trace =
     [NodeStart (diamond_node ''a'' [] 0), Invoke (diamond_node ''a'' [] 0),
      TaskSettled (diamond_node ''a'' [] 0),
      NodeComplete (result_of True (diamond_node ''a'' [] 0)),
      NodeStart (diamond_node ''b'' [''a''] 1), Invoke (diamond_node ''b'' [''a''] 1),
      NodeStart (diamond_node ''c'' [''a''] 1), Invoke (diamond_node ''c'' [''a''] 1),
      TaskSettled (diamond_node ''c'' [''a''] 1),
      NodeComplete (result_of True (diamond_node ''c'' [''a''] 1)),
      TaskSettled (diamond_node ''b'' [''a''] 1),
      NodeComplete (result_of False (diamond_node ''b'' [''a''] 1))]"

lemmas exec_eval =
  executeDAG_def level_nodes_def task_def record_result_def default_options_def
  fails_at_def rejects_at_def result_of_def diamond_dag_def pool_eval

lemma diamond_run:
  "executeDAG [[], [[1]]] diamond_dag (fails_at ''b'') default_options 0 7
     = \<lparr>outcome = Inr diamond_result, run_trace = diamond_trace @ [SetStop]\<rparr>"
  by (simp add: exec_eval diamond_result_def diamond_trace_def diamond_node_def)

lemma diamond_run_two_levels:
  "executeDAG [[], [[1]]] (diamond_dag\<lparr>levels := take 2 (levels diamond_dag)\<rparr>) (fails_at ''b'')
       default_options 0 7
     = \<lparr>outcome = Inr diamond_result, run_trace = diamond_trace @ [SetStop]\<rparr>"
  by (simp add: exec_eval diamond_result_def diamond_trace_def diamond_node_def)

lemma fails_at_node: "\<forall>n r. fails_at x n = Inr r \<longrightarrow> node r = n"
  by (auto simp: fails_at_def result_of_def)

lemma diamond_distinct: "distinct (map id_of (concat (level_nodes diamond_dag)))"
  by (simp add: diamond_levels diamond_node_def)

subsection \<open>Fail-fast\<close>

lemma ran_levels_take:
  "ran_levels processor (take k lv) st0 st j T \<Longrightarrow> ran_levels processor lv st0 st j T"
  unfolding ran_levels_def by (auto simp: min_def split: if_splits)

text \<open>
  C5 (amended). With fail-fast enabled (the default), suppose the run of the first \<open>k\<close>
  levels returns a result that lists a failure. Then the run of the whole graph is that run:
  its trace, and so every callback and every invocation of the processor, and its result are
  the same. The nodes started and invoked are those of the first \<open>j\<close> levels, for some
  \<open>j \<le> k\<close>, and the branch that makes the synthetic result is never taken. When the
  processor answers for the node it was given and the identifiers of the levels are
  distinct, no identifier of a level after the first \<open>k\<close> is a key of the results map.
\<close>

theorem executeDAG_fail_fast_stops:
  fixes processor :: "'d DAGNode \<Rightarrow> 'e + ('d, 'o) NodeResult"
  assumes ff: "failFast options \<noteq> Some False"
    and ret: "outcome (executeDAG sched (dag\<lparr>levels := take k (levels dag)\<rparr>) processor options
                 startTime endTime) = Inr res"
    and failed: "failedNodes res \<noteq> []"
  shows "executeDAG sched dag processor options startTime endTime
           = executeDAG sched (dag\<lparr>levels := take k (levels dag)\<rparr>) processor options
               startTime endTime
       \<and> (\<exists>j \<le> k.
             started_of (run_trace (executeDAG sched dag processor options startTime endTime))
               = concat (take j (level_nodes dag))
           \<and> invoked_of (run_trace (executeDAG sched dag processor options startTime endTime))
               = concat (take j (level_nodes dag)))
       \<and> (\<forall>n. Skip n \<notin> set (run_trace (executeDAG sched dag processor options startTime endTime)))
       \<and> ((\<forall>n r. processor n = Inr r \<longrightarrow> node r = n)
            \<and> distinct (map id_of (concat (level_nodes dag)))
          \<longrightarrow> (\<forall>n \<in> set (concat (drop k (level_nodes dag))). results res (id_of n) = None))"
proof -
  let ?lv = "level_nodes dag"
  let ?limit = "case concurrency options of None \<Rightarrow> 4 | Some c \<Rightarrow> c"
  let ?cut = "dag\<lparr>levels := take k (levels dag)\<rparr>"
  from ff have f: "(case failFast options of None \<Rightarrow> True | Some b \<Rightarrow> b) = True"
    by (cases "failFast options") auto
  from executeDAG_returned [OF ret] obtain st j T where
    run: "run_levels processor ?limit (case failFast options of None \<Rightarrow> True | Some b \<Rightarrow> b)
            sched (level_nodes ?cut) init_exec = (None, st)"
    and r: "ran_levels processor (level_nodes ?cut) init_exec st j T"
    and res: "res = \<lparr>dag_success = (failedNodes_acc st = []), results = results_acc st,
                     failedNodes = failedNodes_acc st, totalDuration = endTime - startTime\<rparr>"
    and tr: "run_trace (executeDAG sched ?cut processor options startTime endTime) = T"
    by blast
  note run' = run [unfolded f level_nodes_take]
  note r' = r [unfolded level_nodes_take]
  from failed res have "failedNodes_acc st \<noteq> []" by simp
  with run_levels_fail_fast_stops [OF run'] have stop: "shouldStop st"
    by (simp add: init_exec_def)
  from run_levels_stopped_append [OF run', of "drop k ?lv"] stop
  have whole: "run_levels processor ?limit True sched ?lv init_exec = (None, st)" by simp
  have same: "executeDAG sched dag processor options startTime endTime
                = executeDAG sched ?cut processor options startTime endTime"
    by (simp add: executeDAG_eq f level_nodes_take run' whole)
  from r' have j: "j \<le> length (take k ?lv)"
    and s: "started_of T = concat (take j (take k ?lv))"
    and i: "invoked_of T = concat (take j (take k ?lv))"
    and t: "trace st = T"
    unfolding ran_levels_def init_exec_def by simp_all
  from j have jk: "j \<le> k" by simp
  note tt = take_take_le [OF j]
  have levels: "\<exists>j \<le> k.
      started_of (run_trace (executeDAG sched dag processor options startTime endTime))
        = concat (take j ?lv)
    \<and> invoked_of (run_trace (executeDAG sched dag processor options startTime endTime))
        = concat (take j ?lv)"
    unfolding same tr using jk s i tt by auto
  from run_levels_no_skip [OF run'] t have "Skip n \<notin> set T" for n
    by (simp add: init_exec_def)
  then have skip: "\<forall>n. Skip n \<notin> set (run_trace (executeDAG sched dag processor options
                                                 startTime endTime))"
    unfolding same tr by blast
  have absent: "\<forall>n \<in> set (concat (drop k ?lv)). results res (id_of n) = None"
    if wf: "\<forall>n r. processor n = Inr r \<longrightarrow> node r = n"
      and d: "distinct (map id_of (concat ?lv))"
  proof
    fix n assume n: "n \<in> set (concat (drop k ?lv))"
    from set_drop_subset_set_drop [OF jk, of ?lv] n
    have "n \<in> set (concat (drop j ?lv))" by auto
    from ran_levels_results(2) [OF ran_levels_take [OF r'] wf d this] res
    show "results res (id_of n) = None" by simp
  qed
  from same levels skip absent show ?thesis by blast
qed

theorem executeDAG_fail_fast_stops_witness:
  "failFast default_options \<noteq> Some False
   \<and> outcome (executeDAG [[], [[1]]] (diamond_dag\<lparr>levels := take 2 (levels diamond_dag)\<rparr>)
                (fails_at ''b'') default_options 0 7) = Inr diamond_result
   \<and> failedNodes diamond_result \<noteq> []
   \<and> executeDAG [[], [[1]]] diamond_dag (fails_at ''b'') default_options 0 7
       = executeDAG [[], [[1]]] (diamond_dag\<lparr>levels := take 2 (levels diamond_dag)\<rparr>)
           (fails_at ''b'') default_options 0 7
   \<and> results diamond_result ''d'' = None"
proof -
  have h1: "failFast default_options \<noteq> Some False" by (simp add: default_options_def)
  have h2: "outcome (executeDAG [[], [[1]]] (diamond_dag\<lparr>levels := take 2 (levels diamond_dag)\<rparr>)
                       (fails_at ''b'') default_options 0 7) = Inr diamond_result"
    unfolding diamond_run_two_levels by simp
  have h3: "failedNodes diamond_result \<noteq> []" by (simp add: diamond_result_def)
  have d: "diamond_node ''d'' [''b'', ''c''] 2 \<in> set (concat (drop 2 (level_nodes diamond_dag)))"
    by (simp add: diamond_levels)
  from executeDAG_fail_fast_stops [OF h1 h2 h3] fails_at_node [of "''b''"] diamond_distinct d
  have "executeDAG [[], [[1]]] diamond_dag (fails_at ''b'') default_options 0 7
          = executeDAG [[], [[1]]] (diamond_dag\<lparr>levels := take 2 (levels diamond_dag)\<rparr>)
              (fails_at ''b'') default_options 0 7"
    and "results diamond_result (id_of (diamond_node ''d'' [''b'', ''c''] 2)) = None"
    by blast+
  then show ?thesis using h1 h2 h3 by (simp add: diamond_node_def)
qed

text \<open>
  C5 as stated fails when the result of the processor carries another node: the results map
  is keyed by \<open>result.node.id\<close>. Below the processor answers for \<open>d\<close> whatever it is given;
  the run stops after the first level, \<open>d\<close>, the item of the third level, is never started,
  and the results map holds an entry under \<open>d\<close>.
\<close>

theorem executeDAG_later_identifier_present_counterexample:
  "level_nodes diamond_dag ! 2 = [diamond_node ''d'' [''b'', ''c''] 2]
   \<and> failFast default_options \<noteq> Some False
   \<and> \<not> isl (outcome (executeDAG [] diamond_dag (answers_for (diamond_node ''d'' [''b'', ''c''] 2))
                       default_options 0 7))
   \<and> started_of (run_trace (executeDAG [] diamond_dag
                               (answers_for (diamond_node ''d'' [''b'', ''c''] 2))
                               default_options 0 7))
       = [diamond_node ''a'' [] 0]
   \<and> failedNodes (projr (outcome (executeDAG [] diamond_dag
                                    (answers_for (diamond_node ''d'' [''b'', ''c''] 2))
                                    default_options 0 7)))
       = [''d'']
   \<and> results (projr (outcome (executeDAG [] diamond_dag
                                 (answers_for (diamond_node ''d'' [''b'', ''c''] 2))
                                 default_options 0 7))) ''d''
       = Some (result_of False (diamond_node ''d'' [''b'', ''c''] 2))"
  by (simp add: diamond_levels exec_eval answers_for_def diamond_node_def started_of_def)

subsection \<open>The result of \<open>executeDAG\<close>\<close>

text \<open>
  C6 (amended). A call that returns a result ran the first \<open>k\<close> levels, for some \<open>k\<close>: the nodes
  started are those of these levels in order, and the results completed are, level after
  level, the processor's results for the nodes of the level in the order they arrived.
  \<open>success\<close> holds exactly when \<open>failedNodes\<close> is empty; \<open>failedNodes\<close> lists the identifiers
  of the unsuccessful results in that order; and when the processor answers for the node it
  was given and the identifiers of the levels are distinct, the results map holds under the
  identifier of every node of the first \<open>k\<close> levels the processor's result for it, and holds
  nothing under the identifier of a node of a later level.
\<close>

theorem executeDAG_result:
  fixes processor :: "'d DAGNode \<Rightarrow> 'e + ('d, 'o) NodeResult"
  assumes ret: "outcome (executeDAG sched dag processor options startTime endTime) = Inr res"
  shows "(dag_success res \<longleftrightarrow> failedNodes res = [])
       \<and> (\<exists>k rss.
             k \<le> length (level_nodes dag)
           \<and> started_of (run_trace (executeDAG sched dag processor options startTime endTime))
               = concat (take k (level_nodes dag))
           \<and> completed_of (run_trace (executeDAG sched dag processor options startTime endTime))
               = concat rss
           \<and> list_all2 (\<lambda>rs lvl. mset (map Inr rs) = mset (map processor lvl))
                rss (take k (level_nodes dag))
           \<and> failedNodes res = map (\<lambda>r. id_of (node r)) (filter (\<lambda>r. \<not> success r) (concat rss))
           \<and> ((\<forall>n r. processor n = Inr r \<longrightarrow> node r = n)
                \<and> distinct (map id_of (concat (level_nodes dag)))
              \<longrightarrow> (\<forall>n \<in> set (concat (take k (level_nodes dag))).
                     \<exists>r. processor n = Inr r \<and> results res (id_of n) = Some r)
                \<and> (\<forall>n \<in> set (concat (drop k (level_nodes dag))).
                     results res (id_of n) = None)))"
proof -
  let ?lv = "level_nodes dag"
  from executeDAG_returned [OF ret] obtain st k T where
    r: "ran_levels processor ?lv init_exec st k T"
    and res: "res = \<lparr>dag_success = (failedNodes_acc st = []), results = results_acc st,
                     failedNodes = failedNodes_acc st, totalDuration = endTime - startTime\<rparr>"
    and tr: "run_trace (executeDAG sched dag processor options startTime endTime) = T"
    by blast
  from res have flag: "dag_success res \<longleftrightarrow> failedNodes res = []" by simp
  from r obtain rss where k: "k \<le> length ?lv"
    and s: "started_of T = concat (take k ?lv)"
    and c: "completed_of T = concat rss"
    and l: "list_all2 (\<lambda>rs lvl. mset (map Inr rs) = mset (map processor lvl)) rss (take k ?lv)"
    and f: "failedNodes_acc st
              = map (\<lambda>r. id_of (node r)) (filter (\<lambda>r. \<not> success r) (completed_of T))"
    unfolding ran_levels_def init_exec_def by auto
  from f c res have f': "failedNodes res
      = map (\<lambda>r. id_of (node r)) (filter (\<lambda>r. \<not> success r) (concat rss))"
    by simp
  have m: "(\<forall>n \<in> set (concat (take k ?lv)).
              \<exists>r. processor n = Inr r \<and> results res (id_of n) = Some r)
         \<and> (\<forall>n \<in> set (concat (drop k ?lv)). results res (id_of n) = None)"
    if wf: "\<forall>n r. processor n = Inr r \<longrightarrow> node r = n"
      and d: "distinct (map id_of (concat ?lv))"
    using ran_levels_results [OF r wf d] res by simp
  from k s c l f' m show ?thesis unfolding tr using flag by blast
qed

theorem executeDAG_result_witness:
  "outcome (executeDAG [[], [[1]]] diamond_dag (fails_at ''b'') default_options 0 7)
     = Inr diamond_result
   \<and> (dag_success diamond_result \<longleftrightarrow> failedNodes diamond_result = [])
   \<and> (\<exists>k rss.
         k \<le> length (level_nodes diamond_dag)
       \<and> started_of (run_trace (executeDAG [[], [[1]]] diamond_dag (fails_at ''b'')
                                  default_options 0 7))
           = concat (take k (level_nodes diamond_dag))
       \<and> completed_of (run_trace (executeDAG [[], [[1]]] diamond_dag (fails_at ''b'')
                                    default_options 0 7))
           = concat rss
       \<and> list_all2 (\<lambda>rs lvl. mset (map Inr rs) = mset (map (fails_at ''b'') lvl))
            rss (take k (level_nodes diamond_dag))
       \<and> failedNodes diamond_result
           = map (\<lambda>r. id_of (node r)) (filter (\<lambda>r. \<not> success r) (concat rss))
       \<and> (\<forall>n \<in> set (concat (take k (level_nodes diamond_dag))).
             \<exists>r. fails_at ''b'' n = Inr r \<and> results diamond_result (id_of n) = Some r)
       \<and> (\<forall>n \<in> set (concat (drop k (level_nodes diamond_dag))).
             results diamond_result (id_of n) = None))"
proof -
  have h: "outcome (executeDAG [[], [[1]]] diamond_dag (fails_at ''b'') default_options 0 7)
             = Inr diamond_result"
    unfolding diamond_run by simp
  from executeDAG_result [OF h] fails_at_node [of "''b''"] diamond_distinct h
  show ?thesis by blast
qed

text \<open>
  C6 as stated fails for the same reason. Below the processor answers for \<open>b\<close>: the item \<open>a\<close>
  was dispatched and has no entry in the results map, and \<open>b\<close>, an item of the second level,
  which is never reached, has one.
\<close>

theorem executeDAG_dispatched_without_entry_counterexample:
  "level_nodes diamond_dag ! 0 = [diamond_node ''a'' [] 0]
   \<and> level_nodes diamond_dag ! 1 = [diamond_node ''b'' [''a''] 1, diamond_node ''c'' [''a''] 1]
   \<and> \<not> isl (outcome (executeDAG [] diamond_dag (answers_for (diamond_node ''b'' [''a''] 1))
                       default_options 0 7))
   \<and> started_of (run_trace (executeDAG [] diamond_dag
                               (answers_for (diamond_node ''b'' [''a''] 1))
                               default_options 0 7))
       = [diamond_node ''a'' [] 0]
   \<and> results (projr (outcome (executeDAG [] diamond_dag
                                 (answers_for (diamond_node ''b'' [''a''] 1))
                                 default_options 0 7))) ''a''
       = None
   \<and> results (projr (outcome (executeDAG [] diamond_dag
                                 (answers_for (diamond_node ''b'' [''a''] 1))
                                 default_options 0 7))) ''b''
       = Some (result_of False (diamond_node ''b'' [''a''] 1))"
  by (simp add: diamond_levels exec_eval answers_for_def diamond_node_def started_of_def)

text \<open>
  The same happens when an identifier occurs in two levels: in the graph below the second
  level is never reached, and its item has the entry recorded for the first level.
\<close>

lemma executeDAG_repeated_identifier:
  "started_of (run_trace (executeDAG [] (diamond_dag\<lparr>levels := [[''a''], [''a'']]\<rparr>)
                            (fails_at ''a'') default_options 0 7))
     = [diamond_node ''a'' [] 0]
   \<and> results (projr (outcome (executeDAG [] (diamond_dag\<lparr>levels := [[''a''], [''a'']]\<rparr>)
                                 (fails_at ''a'') default_options 0 7))) ''a''
       = Some (result_of False (diamond_node ''a'' [] 0))"
  by (simp add: exec_eval diamond_node_def started_of_def)

subsection \<open>The stop flag and the skip branch\<close>

text \<open>
  C10 (amended). In every call, as many invocations of the processor have
  completed as have begun wherever \<open>shouldStop = true\<close> is executed, and the branch that makes
  the synthetic result is never taken. In a call that returns a result, the nodes for which
  \<open>onNodeStart\<close> is evaluated and the nodes for which the processor is invoked are the nodes
  of the first \<open>k\<close> levels, all of them, and every result of the results map is one the
  processor returned for a node of these levels.
\<close>

theorem executeDAG_stop_written_between_levels:
  fixes processor :: "'d DAGNode \<Rightarrow> 'e + ('d, 'o) NodeResult"
  shows "(\<forall>p s. run_trace (executeDAG sched dag processor options startTime endTime)
                  = p @ SetStop # s
             \<longrightarrow> length (invoked_of p) = length (completed_of p))
       \<and> (\<forall>n. Skip n \<notin> set (run_trace (executeDAG sched dag processor options startTime endTime)))
       \<and> (\<forall>res. outcome (executeDAG sched dag processor options startTime endTime) = Inr res
             \<longrightarrow> (\<exists>k \<le> length (level_nodes dag).
                    started_of (run_trace (executeDAG sched dag processor options
                                             startTime endTime))
                      = concat (take k (level_nodes dag))
                  \<and> invoked_of (run_trace (executeDAG sched dag processor options
                                             startTime endTime))
                      = concat (take k (level_nodes dag))
                  \<and> (\<forall>r \<in> ran (results res).
                       \<exists>n \<in> set (concat (take k (level_nodes dag))). processor n = Inr r)))"
proof -
  let ?lv = "level_nodes dag"
  let ?ex = "executeDAG sched dag processor options startTime endTime"
  let ?r = "run_levels processor
              (case concurrency options of None \<Rightarrow> 4 | Some c \<Rightarrow> c)
              (case failFast options of None \<Rightarrow> True | Some b \<Rightarrow> b)
              sched ?lv init_exec"
  have run: "?r = (fst ?r, snd ?r)" by simp
  have tr: "run_trace ?ex = trace (snd ?r)" by (simp add: executeDAG_eq Let_def)
  from run_levels_stops_quiet [OF run]
  have q: "stops_quiet 0 0 (run_trace ?ex)" unfolding tr by (simp add: init_exec_def)
  have quiet: "\<forall>p s. run_trace ?ex = p @ SetStop # s
                 \<longrightarrow> length (invoked_of p) = length (completed_of p)"
  proof (intro allI impI)
    fix p s assume "run_trace ?ex = p @ SetStop # s"
    with q have "stops_quiet 0 0 (p @ SetStop # s)" by simp
    from stops_quiet_prefix [OF this] show "length (invoked_of p) = length (completed_of p)"
      by simp
  qed
  from run_levels_no_skip [OF run] have skip: "\<forall>n. Skip n \<notin> set (run_trace ?ex)"
    unfolding tr by (simp add: init_exec_def)
  have returned: "\<exists>k \<le> length ?lv.
        started_of (run_trace ?ex) = concat (take k ?lv)
      \<and> invoked_of (run_trace ?ex) = concat (take k ?lv)
      \<and> (\<forall>r \<in> ran (results res). \<exists>n \<in> set (concat (take k ?lv)). processor n = Inr r)"
    if ret: "outcome ?ex = Inr res" for res
  proof -
    from executeDAG_returned [OF ret] obtain st k T where
      r: "ran_levels processor ?lv init_exec st k T"
      and res: "res = \<lparr>dag_success = (failedNodes_acc st = []), results = results_acc st,
                       failedNodes = failedNodes_acc st, totalDuration = endTime - startTime\<rparr>"
      and t: "run_trace ?ex = T"
      by blast
    from r have k: "k \<le> length ?lv"
      and s: "started_of T = concat (take k ?lv)"
      and i: "invoked_of T = concat (take k ?lv)"
      unfolding ran_levels_def by simp_all
    have "\<forall>r \<in> ran (results res). \<exists>n \<in> set (concat (take k ?lv)). processor n = Inr r"
      using ran_levels_returned [OF r] res by simp
    with k s i show ?thesis unfolding t by blast
  qed
  from quiet skip returned show ?thesis by blast
qed

theorem executeDAG_stop_written_between_levels_witness:
  "run_trace (executeDAG [[], [[1]]] diamond_dag (fails_at ''b'') default_options 0 7)
     = diamond_trace @ SetStop # []
   \<and> length (invoked_of diamond_trace) = length (completed_of diamond_trace)
   \<and> outcome (executeDAG [[], [[1]]] diamond_dag (fails_at ''b'') default_options 0 7)
       = Inr diamond_result
   \<and> (\<exists>k \<le> length (level_nodes diamond_dag).
         started_of (run_trace (executeDAG [[], [[1]]] diamond_dag (fails_at ''b'')
                                  default_options 0 7))
           = concat (take k (level_nodes diamond_dag))
       \<and> invoked_of (run_trace (executeDAG [[], [[1]]] diamond_dag (fails_at ''b'')
                                  default_options 0 7))
           = concat (take k (level_nodes diamond_dag))
       \<and> (\<forall>r \<in> ran (results diamond_result).
            \<exists>n \<in> set (concat (take k (level_nodes diamond_dag))). fails_at ''b'' n = Inr r))"
proof -
  have h1: "run_trace (executeDAG [[], [[1]]] diamond_dag (fails_at ''b'') default_options 0 7)
              = diamond_trace @ SetStop # []"
    unfolding diamond_run by simp
  have h2: "outcome (executeDAG [[], [[1]]] diamond_dag (fails_at ''b'') default_options 0 7)
              = Inr diamond_result"
    unfolding diamond_run by simp
  from executeDAG_stop_written_between_levels
         [of "[[], [[1]]]" diamond_dag "fails_at ''b''" default_options 0 7] h1 h2
  show ?thesis by blast
qed

text \<open>
  C10 as stated fails when the processor rejects: with \<open>concurrency\<close> 1 the loop of
  \<open>executeWithConcurrency\<close> waits after dispatching \<open>b\<close>, the rejection ends the call, and \<open>c\<close>,
  an item of the level that began dispatching, has neither \<open>onNodeStart\<close> nor the processor
  invoked.
\<close>

theorem executeDAG_rejection_leaves_item_counterexample:
  "level_nodes diamond_dag ! 1 = [diamond_node ''b'' [''a''] 1, diamond_node ''c'' [''a''] 1]
   \<and> executeDAG [] diamond_dag (rejects_at ''b'') \<lparr>concurrency = Some 1, failFast = None\<rparr> 0 7
       = \<lparr>outcome = Inl ''boom'',
          run_trace =
            [NodeStart (diamond_node ''a'' [] 0), Invoke (diamond_node ''a'' [] 0),
             TaskSettled (diamond_node ''a'' [] 0),
             NodeComplete (result_of True (diamond_node ''a'' [] 0)),
             NodeStart (diamond_node ''b'' [''a''] 1), Invoke (diamond_node ''b'' [''a''] 1),
             TaskSettled (diamond_node ''b'' [''a''] 1)]\<rparr>"
  by (simp add: diamond_levels exec_eval diamond_node_def)

subsection \<open>Invocations in flight\<close>

lemma tasks_in_flight_simps [simp]:
  "tasks_in_flight [] = 0"
  "tasks_in_flight (NodeStart n # tr) = tasks_in_flight tr"
  "tasks_in_flight (Invoke n # tr) = tasks_in_flight tr + 1"
  "tasks_in_flight (NodeComplete r # tr) = tasks_in_flight tr"
  "tasks_in_flight (Skip n # tr) = tasks_in_flight tr"
  "tasks_in_flight (SetStop # tr) = tasks_in_flight tr"
  "tasks_in_flight (TaskSettled n # tr) = tasks_in_flight tr - 1"
  "tasks_in_flight (replicate k SetStop) = 0"
  "tasks_in_flight (tr @ tr') = tasks_in_flight tr + tasks_in_flight tr'"
  by (simp_all add: tasks_in_flight_def)

lemma in_flight_Cons:
  "in_flight (Dispatched x # evs) = in_flight evs + 1"
  "in_flight (Settled x # evs) = in_flight evs - 1"
  by (simp_all add: in_flight_def)

text \<open>
  Within a level, the invocations in flight after a prefix of the trace are the promises in
  flight after a prefix of the events of \<open>executeWithConcurrency\<close>.
\<close>

lemma level_trace_prefix:
  "\<exists>m \<le> length evs. tasks_in_flight (take n (level_trace processor False evs))
                        = in_flight (take m evs)"
proof (induction evs arbitrary: n)
  case Nil
  show ?case by simp
next
  case (Cons ev evs)
  show ?case
  proof (cases ev)
    case (Dispatched x)
    show ?thesis
    proof (cases n)
      case 0
      then have "tasks_in_flight (take n (level_trace processor False (ev # evs)))
                   = in_flight (take 0 (ev # evs))" by simp
      then show ?thesis by blast
    next
      case (Suc n1)
      show ?thesis
      proof (cases n1)
        case 0
        with Suc Dispatched
        have "tasks_in_flight (take n (level_trace processor False (ev # evs)))
                = in_flight (take 0 (ev # evs))" by simp
        then show ?thesis by blast
      next
        case (Suc n2)
        from Cons.IH [of n2] obtain m where m: "m \<le> length evs"
          "tasks_in_flight (take n2 (level_trace processor False evs)) = in_flight (take m evs)"
          by blast
        from Suc \<open>n = Suc n1\<close> Dispatched m(2)
        have "tasks_in_flight (take n (level_trace processor False (ev # evs)))
                = in_flight (take (Suc m) (ev # evs))"
          by (simp add: in_flight_Cons)
        with m(1) show ?thesis by (intro exI [of _ "Suc m"]) simp
      qed
    qed
  next
    case (Settled x)
    show ?thesis
    proof (cases n)
      case 0
      then have "tasks_in_flight (take n (level_trace processor False (ev # evs)))
                   = in_flight (take 0 (ev # evs))" by simp
      then show ?thesis by blast
    next
      case (Suc n1)
      show ?thesis
      proof (cases "processor x")
        case (Inl e)
        from Cons.IH [of n1] obtain m where m: "m \<le> length evs"
          "tasks_in_flight (take n1 (level_trace processor False evs)) = in_flight (take m evs)"
          by blast
        from Suc Settled Inl m(2)
        have "tasks_in_flight (take n (level_trace processor False (ev # evs)))
                = in_flight (take (Suc m) (ev # evs))"
          by (simp add: in_flight_Cons)
        with m(1) show ?thesis by (intro exI [of _ "Suc m"]) simp
      next
        case (Inr r)
        show ?thesis
        proof (cases n1)
          case 0
          with Suc Settled Inr
          have "tasks_in_flight (take n (level_trace processor False (ev # evs)))
                  = in_flight (take (Suc 0) (ev # evs))"
            by (simp add: in_flight_Cons)
          then show ?thesis by (intro exI [of _ "Suc 0"]) simp
        next
          case (Suc n2)
          from Cons.IH [of n2] obtain m where m: "m \<le> length evs"
            "tasks_in_flight (take n2 (level_trace processor False evs)) = in_flight (take m evs)"
            by blast
          from Suc \<open>n = Suc n1\<close> Settled Inr m(2)
          have "tasks_in_flight (take n (level_trace processor False (ev # evs)))
                  = in_flight (take (Suc m) (ev # evs))"
            by (simp add: in_flight_Cons)
          with m(1) show ?thesis by (intro exI [of _ "Suc m"]) simp
        qed
      qed
    qed
  qed
qed

lemma level_trace_in_flight:
  "tasks_in_flight (level_trace processor False evs) = in_flight evs"
proof (induction evs)
  case Nil
  show ?case by simp
next
  case (Cons ev evs)
  then show ?case by (cases ev) (auto simp: in_flight_Cons split: sum.splits)
qed

text \<open>\<open>trace_bounded N tr\<close>: at most \<open>N\<close> invocations are in flight after every prefix of \<open>tr\<close>.\<close>

definition trace_bounded :: "int \<Rightarrow> ('d, 'o) exec_event list \<Rightarrow> bool" where
  "trace_bounded N tr \<longleftrightarrow> (\<forall>n. tasks_in_flight (take n tr) \<le> N)"

lemma level_trace_bounded:
  assumes "bounded N evs"
  shows "trace_bounded N (level_trace processor False evs)"
  unfolding trace_bounded_def
proof
  fix n
  from level_trace_prefix [of evs n processor] obtain m where "m \<le> length evs"
    "tasks_in_flight (take n (level_trace processor False evs)) = in_flight (take m evs)"
    by blast
  with assms show "tasks_in_flight (take n (level_trace processor False evs)) \<le> N"
    by (simp add: bounded_def)
qed

lemma trace_bounded_append:
  assumes "tasks_in_flight A = 0" "trace_bounded N A" "trace_bounded N B"
  shows "trace_bounded N (A @ B)"
  unfolding trace_bounded_def
proof
  fix n
  show "tasks_in_flight (take n (A @ B)) \<le> N"
  proof (cases "n \<le> length A")
    case True
    with assms(2) show ?thesis by (simp add: trace_bounded_def)
  next
    case False
    with assms(1,3) show ?thesis by (simp add: trace_bounded_def)
  qed
qed

lemma trace_bounded_stops: "0 \<le> N \<Longrightarrow> trace_bounded N (replicate k SetStop)"
  by (simp add: trace_bounded_def)

lemma run_levels_bounded:
  "run_levels processor limit f sched lv st0 = (err, st)
     \<Longrightarrow> 1 \<le> N \<Longrightarrow> limit \<le> of_int N
     \<Longrightarrow> tasks_in_flight (trace st0) = 0 \<Longrightarrow> trace_bounded N (trace st0)
     \<Longrightarrow> trace_bounded N (trace st)"
proof (induction processor limit f sched lv st0 rule: run_levels.induct)
  case (1 processor limit f sched st0)
  then show ?case by simp
next
  case (2 processor limit f sched lvl rest st0)
  show ?case
  proof (cases "shouldStop st0")
    case True
    with "2.prems" show ?thesis by simp
  next
    case False
    then have ss: "shouldStop st0 = False" by simp
    let ?pool = "executeWithConcurrency (case sched of [] \<Rightarrow> [] | s # _ \<Rightarrow> s) lvl processor limit"
    let ?L = "level_trace processor False (events ?pool)"
    let ?st1 = "st0\<lparr>trace := trace st0 @ ?L\<rparr>"
    let ?st2 = "fold (record_result f) (pool_results ?pool) ?st1"
    from executeWithConcurrency_bounded [OF "2.prems"(2,3)]
    have "trace_bounded N ?L" by (rule level_trace_bounded)
    with "2.prems"(4,5) have b1: "trace_bounded N (trace ?st1)"
      by (simp add: trace_bounded_append)
    show ?thesis
    proof (cases "thrown ?pool")
      case None
      with "2.prems"(1) False
      have run: "run_levels processor limit f (tl sched) rest ?st2 = (err, st)"
        by (simp add: Let_def)
      from executeWithConcurrency_quiet [OF None]
      have q: "tasks_in_flight ?L = 0" by (simp add: level_trace_in_flight)
      with "2.prems"(4) have z1: "tasks_in_flight (trace ?st1) = 0" by simp
      then have z2: "tasks_in_flight (trace ?st2) = 0" by (simp add: fold_record_result)
      from "2.prems"(2) have "0 \<le> N" by simp
      from trace_bounded_append [OF z1 b1 trace_bounded_stops [OF this]]
      have b2: "trace_bounded N (trace ?st2)" by (simp add: fold_record_result)
      from "2.IH" [OF False refl refl, unfolded ss task_running, OF None run "2.prems"(2,3) z2 b2]
      show ?thesis .
    next
      case (Some e)
      with "2.prems"(1) False have "st = ?st1" by (simp add: Let_def)
      with b1 show ?thesis by simp
    qed
  qed
qed

subsection \<open>The concurrency limit\<close>

text \<open>A fan: \<open>b\<close>, \<open>c\<close> and \<open>d\<close> depend on \<open>a\<close>.\<close>

definition fan_map :: "unit node_map" where
  "fan_map =
     [(''a'', \<lparr>id_of = ''a'', dependencies = [], level = None, data = None\<rparr>),
      (''b'', \<lparr>id_of = ''b'', dependencies = [''a''], level = None, data = None\<rparr>),
      (''c'', \<lparr>id_of = ''c'', dependencies = [''a''], level = None, data = None\<rparr>),
      (''d'', \<lparr>id_of = ''d'', dependencies = [''a''], level = None, data = None\<rparr>)]"

definition fan_dag :: "unit DependencyDAG" where
  "fan_dag =
     \<lparr>nodes =
        [(''a'', diamond_node ''a'' [] 0),
         (''b'', diamond_node ''b'' [''a''] 1),
         (''c'', diamond_node ''c'' [''a''] 1),
         (''d'', diamond_node ''d'' [''a''] 1)],
      levels = [[''a''], [''b'', ''c'', ''d'']], roots = [''b'', ''c'', ''d''], leaves = [''a'']\<rparr>"

lemma fan_build: "buildLeveledDAG fan_map = Inr fan_dag"
  by (simp add: fan_map_def fan_dag_def diamond_node_def kahn_eval)

definition succeeds :: "unit DAGNode \<Rightarrow> string + (unit, unit) NodeResult" where
  "succeeds n = Inr (result_of True n)"

definition options_with :: "rat \<Rightarrow> DAGExecutionOptions" where
  "options_with c = \<lparr>concurrency = Some c, failFast = None\<rparr>"

lemmas fan_eval =
  executeDAG_def level_nodes_def task_def record_result_def options_with_def
  succeeds_def result_of_def fan_dag_def diamond_node_def pool_eval
  tasks_in_flight_def invoked_of_def settled_of_def


text \<open>
  C4 (amended). For every graph, every processor, every schedule and every integer limit
  \<open>N\<close> of at least 1, given by the option \<open>concurrency\<close> or by its default 4, at most \<open>N\<close>
  invocations of the processor are begun and not settled after every prefix of the trace of
  \<open>executeDAG\<close>.
\<close>

theorem executeDAG_in_flight_bounded:
  fixes processor :: "'d DAGNode \<Rightarrow> 'e + ('d, 'o) NodeResult"
  assumes "(case concurrency options of None \<Rightarrow> 4 | Some c \<Rightarrow> c) = of_int N"
    and "1 \<le> N"
  shows "tasks_in_flight
           (take n (run_trace (executeDAG sched dag processor options startTime endTime))) \<le> N"
proof -
  let ?r = "run_levels processor
              (case concurrency options of None \<Rightarrow> 4 | Some c \<Rightarrow> c)
              (case failFast options of None \<Rightarrow> True | Some b \<Rightarrow> b)
              sched (level_nodes dag) init_exec"
  have run: "?r = (fst ?r, snd ?r)" by simp
  have tr: "run_trace (executeDAG sched dag processor options startTime endTime) = trace (snd ?r)"
    by (simp add: executeDAG_eq Let_def)
  from assms(1) have le: "(case concurrency options of None \<Rightarrow> 4 | Some c \<Rightarrow> c) \<le> of_int N"
    by simp
  from assms(2) have "trace_bounded N (trace (init_exec :: ('d, 'o) exec_state))"
    by (simp add: init_exec_def trace_bounded_def)
  from run_levels_bounded [OF run assms(2) le _ this]
  have "trace_bounded N (trace (snd ?r))" by (simp add: init_exec_def)
  then show ?thesis unfolding tr trace_bounded_def by blast
qed

theorem executeDAG_in_flight_bounded_witness:
  "(case concurrency \<lparr>concurrency = Some 2, failFast = None\<rparr> of None \<Rightarrow> 4 | Some c \<Rightarrow> c)
     = of_int 2
   \<and> (1 :: int) \<le> 2
   \<and> invoked_of (take 12 (run_trace (executeDAG [] fan_dag succeeds
                                        \<lparr>concurrency = Some 2, failFast = None\<rparr> 0 7)))
       = [diamond_node ''a'' [] 0, diamond_node ''b'' [''a''] 1, diamond_node ''c'' [''a''] 1,
          diamond_node ''d'' [''a''] 1]
   \<and> tasks_in_flight (take 12 (run_trace (executeDAG [] fan_dag succeeds
                                             \<lparr>concurrency = Some 2, failFast = None\<rparr> 0 7)))
       \<le> 2"
proof -
  have h1: "(case concurrency \<lparr>concurrency = Some 2, failFast = None\<rparr> of
               None \<Rightarrow> 4 | Some c \<Rightarrow> c) = of_int 2"
    by simp
  have h2: "(1 :: int) \<le> 2" by simp
  have i: "invoked_of (take 12 (run_trace (executeDAG [] fan_dag succeeds
                                             \<lparr>concurrency = Some 2, failFast = None\<rparr> 0 7)))
       = [diamond_node ''a'' [] 0, diamond_node ''b'' [''a''] 1, diamond_node ''c'' [''a''] 1,
          diamond_node ''d'' [''a''] 1]"
    by (simp add: fan_eval)
  from executeDAG_in_flight_bounded [OF h1 h2, of 12 "[]" fan_dag succeeds 0 7] h1 h2 i
  show ?thesis by blast
qed

text \<open>
  C4 as stated fails for a limit below 1 and for a limit that is not an integer. With
  \<open>concurrency\<close> 0 the loop waits after every dispatch, so one invocation is in flight, which
  is more than 0. With \<open>concurrency\<close> 5/2 the test \<open>executing.size >= limit\<close> first holds at
  size 3, so \<open>b\<close>, \<open>c\<close> and \<open>d\<close> are in flight together, which is more than 5/2.
\<close>

theorem executeDAG_limit_counterexample:
  "\<not> of_int (tasks_in_flight (take 2 (run_trace (executeDAG [] fan_dag succeeds
                                         \<lparr>concurrency = Some 0, failFast = None\<rparr> 0 7))))
       \<le> (0 :: rat)
   \<and> \<not> of_int (tasks_in_flight (take 10 (run_trace (executeDAG [] fan_dag succeeds
                                         \<lparr>concurrency = Some (5 / 2), failFast = None\<rparr> 0 7))))
       \<le> (5 / 2 :: rat)"
  by (simp add: fan_eval)

section \<open>\<open>createProcessor\<close>\<close>

text \<open>
  What \<open>fn\<close> can throw: an instance of \<open>Error\<close>, or any other value. \<open>fn node\<close> is \<open>None\<close>
  when the promise of \<open>fn\<close> resolves and \<open>Some t\<close> when \<open>fn\<close> throws \<open>t\<close> or its promise rejects
  with \<open>t\<close>.
\<close>

datatype ('m, 'v) thrown_value = ErrorInstance 'm | OtherValue 'v

text \<open>
  \<open>to_string\<close> stands for \<open>String(error)\<close>, which returns a string or throws (\<open>Inl\<close>): the
  conversion of an object calls its \<open>toString\<close> and \<open>valueOf\<close>. \<open>message_text\<close> stands for
  reading \<open>err.message\<close> of an instance of \<open>Error\<close> and converting it in
  \<open>"Failed " + node.id + ": " + err.message\<close>: the message can be any value, and the
  concatenation returns its text or throws (\<open>Inl\<close>). Both stand in the \<open>catch\<close> block, so what
  they throw rejects the promise of the processor. The field \<open>error\<close> of the result is the
  \<open>Error\<close> object; the model keeps the text of its message. \<open>startTime\<close> and \<open>endTime\<close> are
  the two readings of \<open>Date.now()\<close>.
\<close>

definition createProcessor ::
  "('m \<Rightarrow> 'x + string) \<Rightarrow> ('v \<Rightarrow> 'x + string) \<Rightarrow> ('d DAGNode \<Rightarrow> ('m, 'v) thrown_value option)
     \<Rightarrow> int \<Rightarrow> int \<Rightarrow> 'd DAGNode \<Rightarrow> 'x + ('d, 'o) NodeResult" where
  "createProcessor message_text to_string fn startTime endTime n =
     (let logs0 = [''Starting '' @ id_of n]
      in case fn n of
           None \<Rightarrow>
             Inr \<lparr>node = n, success = True, error = None, duration = endTime - startTime,
                  logs = logs0 @ [''Completed '' @ id_of n], output_value = None\<rparr>
         | Some thrown' \<Rightarrow>
             (case (case thrown' of
                      ErrorInstance err \<Rightarrow> message_text err
                    | OtherValue v \<Rightarrow> to_string v) of
                Inl x \<Rightarrow> Inl x
              | Inr message \<Rightarrow>
                  Inr \<lparr>node = n, success = False, error = Some message,
                       duration = endTime - startTime,
                       logs = logs0 @ [''Failed '' @ id_of n @ '': '' @ message],
                       output_value = None\<rparr>))"

text \<open>
  The values of the examples. Thrown values that are no \<open>Error\<close>: a string, and the object
  \<open>Object.create(null)\<close>, which has neither \<open>toString\<close> nor \<open>valueOf\<close>, so that \<open>String\<close>
  throws a \<open>TypeError\<close> for it. Instances of \<open>Error\<close>: one whose message is a string, and one
  whose message was set to a \<open>Symbol\<close>, which the concatenation cannot convert.
\<close>

datatype js_value = StringValue string | NullPrototypeObject

datatype js_error_object = ErrorWithMessage string | ErrorWithSymbolMessage

datatype js_error = TypeError string

definition js_String :: "js_value \<Rightarrow> js_error + string" where
  "js_String v =
     (case v of
        StringValue s \<Rightarrow> Inr s
      | NullPrototypeObject \<Rightarrow> Inl (TypeError ''Cannot convert object to primitive value''))"

definition js_message :: "js_error_object \<Rightarrow> js_error + string" where
  "js_message err =
     (case err of
        ErrorWithMessage s \<Rightarrow> Inr s
      | ErrorWithSymbolMessage \<Rightarrow> Inl (TypeError ''Cannot convert a Symbol value to a string''))"

text \<open>
  When \<open>fn\<close> returns, throws an \<open>Error\<close> whose message has a text, or throws a value that
  \<open>String\<close> converts, the processor returns a result: successful with the two log lines, or
  failed with the message and the failure line.
\<close>

lemma createProcessor_returns:
  "fn n = None \<Longrightarrow>
     createProcessor message_text to_string fn startTime endTime n
       = Inr \<lparr>node = n, success = True, error = None, duration = endTime - startTime,
              logs = [''Starting '' @ id_of n, ''Completed '' @ id_of n], output_value = None\<rparr>"
  "fn n = Some (ErrorInstance err) \<Longrightarrow> message_text err = Inr s \<Longrightarrow>
     createProcessor message_text to_string fn startTime endTime n
       = Inr \<lparr>node = n, success = False, error = Some s, duration = endTime - startTime,
              logs = [''Starting '' @ id_of n, ''Failed '' @ id_of n @ '': '' @ s],
              output_value = None\<rparr>"
  "fn n = Some (OtherValue v) \<Longrightarrow> to_string v = Inr s \<Longrightarrow>
     createProcessor message_text to_string fn startTime endTime n
       = Inr \<lparr>node = n, success = False, error = Some s, duration = endTime - startTime,
              logs = [''Starting '' @ id_of n, ''Failed '' @ id_of n @ '': '' @ s],
              output_value = None\<rparr>"
  by (simp_all add: createProcessor_def)

text \<open>The processor rejects exactly when one of the two conversions throws.\<close>

lemma createProcessor_rejects_iff:
  "(\<exists>x. createProcessor message_text to_string fn startTime endTime n = Inl x)
     \<longleftrightarrow> (\<exists>err x. fn n = Some (ErrorInstance err) \<and> message_text err = Inl x)
       \<or> (\<exists>v x. fn n = Some (OtherValue v) \<and> to_string v = Inl x)"
  by (auto simp: createProcessor_def Let_def split: option.splits thrown_value.splits sum.splits)

lemma createProcessor_rejects_error_message:
  "createProcessor js_message js_String (\<lambda>n. Some (ErrorInstance ErrorWithSymbolMessage)) 0 5
       (diamond_node ''a'' [] 0)
     = (Inl (TypeError ''Cannot convert a Symbol value to a string'')
          :: js_error + (unit, unit) NodeResult)"
  by (simp add: createProcessor_def js_message_def)

text \<open>
  C8. The processor rejects when \<open>fn\<close> throws a value that \<open>String\<close> cannot convert: for
  \<open>fn = async () => { throw Object.create(null) }\<close> the call \<open>String(error)\<close> in the \<open>catch\<close>
  block throws, and the promise of the processor rejects with that \<open>TypeError\<close>. A thrown
  string is converted as the claim says.
\<close>

theorem createProcessor_rejects_uncoercible:
  "createProcessor js_message js_String (\<lambda>n. Some (OtherValue NullPrototypeObject)) 0 5
       (diamond_node ''a'' [] 0)
     = (Inl (TypeError ''Cannot convert object to primitive value'')
          :: js_error + (unit, unit) NodeResult)
   \<and> createProcessor js_message js_String
       (\<lambda>n. Some (OtherValue (StringValue ''string error''))) 0 5
       (diamond_node ''a'' [] 0)
     = (Inr \<lparr>node = diamond_node ''a'' [] 0, success = False, error = Some ''string error'',
             duration = 5, logs = [''Starting a'', ''Failed a: string error''],
             output_value = None\<rparr>
          :: js_error + (unit, unit) NodeResult)"
  by (simp add: createProcessor_def js_String_def diamond_node_def)

end
